theory Spec2Isabelle
  imports Complex_Main "HOL-Library.Log_Nat" "HOL-Library.Word"
    "HOL-Library.Signed_Division" "HOL-Library.Power_By_Squaring"
begin

section \<open>Errors\<close>

text \<open>
  Every exception the audio pipeline can raise is a value. \<open>WaveError\<close> is the
  \<open>wave.Error\<close> of the container library, \<open>StructError\<close> is \<open>struct.error\<close>,
  \<open>SynthesisError\<close> is any failure of the speech engine; the others are Python's
  built-in exceptions of the same name (\<open>EOFError\<close> is what the container library raises
  on bytes that end inside the header).
\<close>

datatype error =
    WaveError
  | EOFError
  | StructError
  | ValueError
  | ZeroDivisionError
  | OverflowError
  | IndexError
  | SynthesisError

definition ebind :: "error + 'a \<Rightarrow> ('a \<Rightarrow> error + 'b) \<Rightarrow> error + 'b" where
  "ebind x f = (case x of Inl e \<Rightarrow> Inl e | Inr v \<Rightarrow> f v)"

text \<open>A list comprehension whose body may raise: the first exception ends it.\<close>

fun map_err :: "('a \<Rightarrow> error + 'b) \<Rightarrow> 'a list \<Rightarrow> error + 'b list" where
  "map_err f [] = Inr []"
| "map_err f (x # xs) =
     (case f x of Inl e \<Rightarrow> Inl e
      | Inr y \<Rightarrow> (case map_err f xs of Inl e \<Rightarrow> Inl e | Inr ys \<Rightarrow> Inr (y # ys)))"

text \<open>A \<open>for\<close> loop over a list of indices that updates a state and may raise.\<close>

fun for_loop :: "'i list \<Rightarrow> ('i \<Rightarrow> 's \<Rightarrow> error + 's) \<Rightarrow> 's \<Rightarrow> error + 's" where
  "for_loop [] body s = Inr s"
| "for_loop (i # is) body s =
     (case body i s of Inl e \<Rightarrow> Inl e | Inr s' \<Rightarrow> for_loop is body s')"

section \<open>Python floats: IEEE 754 binary64\<close>

text \<open>
  A Python float is a binary64 number. A finite one is the rational it denotes; the two
  zeros, which Python compares equal and which no operation of the pipeline tells
  apart, are the one value \<open>Fin 0\<close>. Every arithmetic operation computes the exact
  rational result and rounds it to the nearest binary64 number, ties to the even
  mantissa: 53 bits of mantissa, the smallest exponent of the last place \<open>- 1074\<close>
  (subnormal numbers), and infinity from \<open>2 ^ 1024\<close> on.
\<close>

datatype pyfloat = Fin rat | PInf | NInf | NaN

definition pow2 :: "int \<Rightarrow> rat" where
  "pow2 e = (if 0 \<le> e then 2 ^ nat e else 1 / 2 ^ nat (- e))"

definition round_half_even :: "rat \<Rightarrow> int" where
  "round_half_even y =
     (let f = \<lfloor>y\<rfloor>; d = y - of_int f
      in if d < 1 / 2 then f else if 1 / 2 < d then f + 1
         else if even f then f else f + 1)"

text \<open>\<open>ilog2 q\<close> is the integer \<open>k\<close> with \<open>2 ^ k \<le> q < 2 ^ (k + 1)\<close>, for \<open>q > 0\<close>.\<close>

definition ilog2 :: "rat \<Rightarrow> int" where
  "ilog2 q =
     (case quotient_of q of (a, b) \<Rightarrow>
        let d = bitlen a - bitlen b
        in if pow2 d \<le> q then d else d - 1)"

text \<open>The exponent of the unit in the last place of the binary64 numbers around \<open>q\<close>.\<close>

definition b64_exp :: "rat \<Rightarrow> int" where
  "b64_exp q = max (ilog2 \<bar>q\<bar> - 52) (- 1074)"

definition b64_round :: "rat \<Rightarrow> pyfloat" where
  "b64_round q =
     (if q = 0 then Fin 0
      else let e = b64_exp q;
               r = of_int (round_half_even (q / pow2 e)) * pow2 e
           in if pow2 1024 \<le> \<bar>r\<bar> then (if 0 < q then PInf else NInf) else Fin r)"

fun fneg :: "pyfloat \<Rightarrow> pyfloat" where
  "fneg (Fin a) = Fin (- a)"
| "fneg PInf = NInf"
| "fneg NInf = PInf"
| "fneg NaN = NaN"

fun fadd :: "pyfloat \<Rightarrow> pyfloat \<Rightarrow> pyfloat" where
  "fadd (Fin a) (Fin b) = b64_round (a + b)"
| "fadd NaN y = NaN"
| "fadd x NaN = NaN"
| "fadd PInf NInf = NaN"
| "fadd NInf PInf = NaN"
| "fadd PInf y = PInf"
| "fadd NInf y = NInf"
| "fadd (Fin a) y = y"

definition fsub :: "pyfloat \<Rightarrow> pyfloat \<Rightarrow> pyfloat" where
  "fsub x y = fadd x (fneg y)"

fun fmul :: "pyfloat \<Rightarrow> pyfloat \<Rightarrow> pyfloat" where
  "fmul (Fin a) (Fin b) = b64_round (a * b)"
| "fmul NaN y = NaN"
| "fmul x NaN = NaN"
| "fmul (Fin a) y = (if a = 0 then NaN else if 0 < a then y else fneg y)"
| "fmul x (Fin b) = (if b = 0 then NaN else if 0 < b then x else fneg x)"
| "fmul PInf y = y"
| "fmul NInf y = fneg y"

text \<open>Python's \<open>x / y\<close> on floats raises on a zero divisor, whatever \<open>x\<close> is.\<close>

fun fdiv :: "pyfloat \<Rightarrow> pyfloat \<Rightarrow> error + pyfloat" where
  "fdiv x (Fin b) =
     (if b = 0 then Inl ZeroDivisionError
      else Inr (case x of
                  Fin a \<Rightarrow> b64_round (a / b)
                | NaN \<Rightarrow> NaN
                | PInf \<Rightarrow> (if 0 < b then PInf else NInf)
                | NInf \<Rightarrow> (if 0 < b then NInf else PInf)))"
| "fdiv NaN y = Inr NaN"
| "fdiv x NaN = Inr NaN"
| "fdiv (Fin a) y = Inr (Fin 0)"
| "fdiv x y = Inr NaN"

text \<open>\<open>x < y\<close> on floats: false as soon as one side is not a number.\<close>

fun flt :: "pyfloat \<Rightarrow> pyfloat \<Rightarrow> bool" where
  "flt NaN y = False"
| "flt x NaN = False"
| "flt (Fin a) (Fin b) = (a < b)"
| "flt x NInf = False"
| "flt PInf y = False"
| "flt x y = True"

text \<open>
  The two-argument \<open>min(a, b)\<close> and \<open>max(a, b)\<close> of Python keep the first argument
  unless the second is strictly smaller (greater).
\<close>

definition py_min :: "pyfloat \<Rightarrow> pyfloat \<Rightarrow> pyfloat" where
  "py_min a b = (if flt b a then b else a)"

definition py_max :: "pyfloat \<Rightarrow> pyfloat \<Rightarrow> pyfloat" where
  "py_max a b = (if flt a b then b else a)"

text \<open>Conversion of an integer to a float: correctly rounded, OverflowError beyond the range.\<close>

definition float_of_int :: "int \<Rightarrow> error + pyfloat" where
  "float_of_int i =
     (case b64_round (of_int i) of Fin r \<Rightarrow> Inr (Fin r) | _ \<Rightarrow> Inl OverflowError)"

text \<open>\<open>a / b\<close> on two integers: the correctly rounded quotient.\<close>

definition int_truediv :: "int \<Rightarrow> int \<Rightarrow> error + pyfloat" where
  "int_truediv a b =
     (if b = 0 then Inl ZeroDivisionError
      else case b64_round (of_int a / of_int b) of
             Fin r \<Rightarrow> Inr (Fin r) | _ \<Rightarrow> Inl OverflowError)"

text \<open>\<open>int(x)\<close>: truncation towards zero; infinities and NaN raise.\<close>

definition trunc_zero :: "rat \<Rightarrow> int" where
  "trunc_zero a = (if 0 \<le> a then \<lfloor>a\<rfloor> else \<lceil>a\<rceil>)"

definition float_to_int :: "pyfloat \<Rightarrow> error + int" where
  "float_to_int x =
     (case x of
        Fin a \<Rightarrow> Inr (trunc_zero a)
      | NaN \<Rightarrow> Inl ValueError
      | _ \<Rightarrow> Inl OverflowError)"

text \<open>\<open>math.floor(x)\<close>, with the same exceptions.\<close>

definition float_floor :: "pyfloat \<Rightarrow> error + int" where
  "float_floor x =
     (case x of
        Fin a \<Rightarrow> Inr \<lfloor>a\<rfloor>
      | NaN \<Rightarrow> Inl ValueError
      | _ \<Rightarrow> Inl OverflowError)"

text \<open>
  \<open>math.sin\<close> comes from the platform's C library: \<open>sin_impl\<close> stands for what it
  returns on a finite argument. An infinite argument raises, NaN gives NaN.
\<close>

definition py_sin :: "(rat \<Rightarrow> rat) \<Rightarrow> pyfloat \<Rightarrow> error + pyfloat" where
  "py_sin sin_impl x =
     (case x of
        Fin a \<Rightarrow> Inr (Fin (sin_impl a))
      | NaN \<Rightarrow> Inr NaN
      | _ \<Rightarrow> Inl ValueError)"

text \<open>\<open>math.pi\<close>, the binary64 number nearest to the circle constant.\<close>

definition math_pi :: pyfloat where
  "math_pi = Fin (884279719003555 / 281474976710656)"

text \<open>Mixed operations convert the integer operand first.\<close>

definition int_div_float :: "int \<Rightarrow> pyfloat \<Rightarrow> error + pyfloat" where
  "int_div_float i y = ebind (float_of_int i) (\<lambda>x. fdiv x y)"

definition int_mul_float :: "int \<Rightarrow> pyfloat \<Rightarrow> error + pyfloat" where
  "int_mul_float i y = ebind (float_of_int i) (\<lambda>x. Inr (fmul x y))"

definition float_mul_int :: "pyfloat \<Rightarrow> int \<Rightarrow> error + pyfloat" where
  "float_mul_int x i = ebind (float_of_int i) (\<lambda>y. Inr (fmul x y))"

definition float_sub_int :: "pyfloat \<Rightarrow> int \<Rightarrow> error + pyfloat" where
  "float_sub_int x i = ebind (float_of_int i) (\<lambda>y. Inr (fsub x y))"

definition int_sub_float :: "int \<Rightarrow> pyfloat \<Rightarrow> error + pyfloat" where
  "int_sub_float i y = ebind (float_of_int i) (\<lambda>x. Inr (fsub x y))"

section \<open>Lists with Python's indexing\<close>

text \<open>
  Subscripts: an index from \<open>0\<close> up to the length is taken as it is, one from minus the
  length up to \<open>- 1\<close> counts from the end, and any other raises IndexError.
\<close>

definition py_index :: "nat \<Rightarrow> int \<Rightarrow> nat option" where
  "py_index n i =
     (if 0 \<le> i \<and> i < int n then Some (nat i)
      else if - int n \<le> i \<and> i < 0 then Some (nat (int n + i))
      else None)"

definition py_getitem :: "'a list \<Rightarrow> int \<Rightarrow> error + 'a" where
  "py_getitem xs i =
     (case py_index (length xs) i of None \<Rightarrow> Inl IndexError | Some j \<Rightarrow> Inr (xs ! j))"

definition py_setitem :: "'a list \<Rightarrow> int \<Rightarrow> 'a \<Rightarrow> error + 'a list" where
  "py_setitem xs i v =
     (case py_index (length xs) i of None \<Rightarrow> Inl IndexError | Some j \<Rightarrow> Inr (xs[j := v]))"

text \<open>\<open>range(a, b)\<close> as the list of its values.\<close>

definition py_range :: "int \<Rightarrow> int \<Rightarrow> int list" where
  "py_range a b = map (\<lambda>k. a + int k) [0..<nat (b - a)]"

section \<open>The waveform container\<close>

text \<open>
  The container library (\<open>wave\<close>) is not part of the repository. What the decoder reads
  from an opened container, and what the encoder sets on one before writing, is this
  record: channel count, sample width in bytes, frame rate, and the frame bytes: on the
  reading side the bytes that \<open>readframes(getnframes())\<close> returns, on the writing side the
  bytes given to \<open>writeframes\<close>.
\<close>

type_synonym byte = "8 word"

text \<open>The range of a signed 16-bit sample.\<close>

definition in_s16 :: "int \<Rightarrow> bool" where
  "in_s16 s \<longleftrightarrow> - 32768 \<le> s \<and> s \<le> 32767"

record wave_params =
  nchannels :: nat
  sampwidth :: nat
  framerate :: int
  frames :: "byte list"

section \<open>WaveformDecoder: \<open>_wav_to_samples\<close>\<close>

text \<open>One little-endian signed 16-bit value.\<close>

definition s16_le :: "byte \<Rightarrow> byte \<Rightarrow> int" where
  "s16_le lo hi = (let u = uint lo + 256 * uint hi in if u < 32768 then u else u - 65536)"

text \<open>
  \<open>struct.unpack('<Nh', raw_data)\<close> with \<open>N = len(raw_data) // 2\<close>: it raises when the
  data is not exactly \<open>2 * N\<close> bytes long, that is on an odd length.
\<close>

fun unpack_h :: "byte list \<Rightarrow> error + int list" where
  "unpack_h [] = Inr []"
| "unpack_h [b] = Inl StructError"
| "unpack_h (lo # hi # bs) =
     (case unpack_h bs of Inl e \<Rightarrow> Inl e | Inr vs \<Rightarrow> Inr (s16_le lo hi # vs))"

text \<open>\<open>int.from_bytes(bs, 'little', signed=True)\<close>.\<close>

definition from_bytes_le_signed :: "byte list \<Rightarrow> int" where
  "from_bytes_le_signed bs =
     (let u = foldr (\<lambda>b acc. uint b + 256 * acc) bs 0; w = 2 ^ (8 * length bs)
      in if 2 * u < w then u else u - w)"

text \<open>The slices \<open>raw_data[i:i + k]\<close> for \<open>i\<close> in \<open>range(0, len(raw_data), k)\<close>.\<close>

function chunks :: "nat \<Rightarrow> 'a list \<Rightarrow> 'a list list" where
  "chunks k xs = (if k = 0 \<or> xs = [] then [] else take k xs # chunks k (drop k xs))"
  by pat_completeness auto
termination
  by (relation "measure (\<lambda>(k, xs). length xs)") auto

declare chunks.simps [simp del]

text \<open>
  The three extraction branches. In the last one \<open>range(0, len(raw_data), 0)\<close> raises
  ValueError for a width of zero; \<open>>>\<close> on Python integers rounds towards minus infinity.
\<close>

definition extract_samples :: "nat \<Rightarrow> byte list \<Rightarrow> error + int list" where
  "extract_samples width raw_data =
     (if width = 2 then unpack_h raw_data
      else if width = 1 then Inr (map (\<lambda>b. (uint b - 128) * 256) raw_data)
      else if width = 0 then Inl ValueError
      else Inr (map (\<lambda>c. from_bytes_le_signed c div 2 ^ (8 * (width - 2)))
                  (chunks width raw_data)))"

text \<open>
  The stereo loop: \<open>i\<close> steps through \<open>range(0, len(samples), 2)\<close>; a pair is averaged with
  \<open>//\<close>, a last sample without a partner is appended as it is.
\<close>

fun downmix :: "int list \<Rightarrow> int list" where
  "downmix (l # r # rest) = (l + r) div 2 # downmix rest"
| "downmix [s] = [s]"
| "downmix [] = []"

definition normalize :: "int list \<Rightarrow> error + pyfloat list" where
  "normalize samples = map_err (\<lambda>s. int_div_float s (Fin 32768)) samples"

definition decode_frames :: "wave_params \<Rightarrow> error + (pyfloat list \<times> int)" where
  "decode_frames wv =
     ebind (extract_samples (sampwidth wv) (frames wv)) (\<lambda>samples.
       let samples = (if nchannels wv = 2 then downmix samples else samples)
       in ebind (normalize samples) (\<lambda>float_samples.
            Inr (float_samples, framerate wv)))"

text \<open>
  \<open>wave_open\<close> stands for \<open>wave.open(buffer, 'rb')\<close> followed by the four getters and
  \<open>readframes\<close>: it raises, or yields the parameters of the container.
\<close>

definition wav_to_samples ::
  "(byte list \<Rightarrow> error + wave_params) \<Rightarrow> byte list \<Rightarrow> error + (pyfloat list \<times> int)" where
  "wav_to_samples wave_open wav_bytes = ebind (wave_open wav_bytes) decode_frames"

section \<open>Resampler: \<open>_resample\<close>\<close>

definition resample_at :: "pyfloat list \<Rightarrow> pyfloat \<Rightarrow> int \<Rightarrow> error + pyfloat" where
  "resample_at samples ratio i =
     ebind (int_mul_float i ratio) (\<lambda>src_idx.
     ebind (float_to_int src_idx) (\<lambda>idx.
     ebind (float_sub_int src_idx idx) (\<lambda>frac.
       if idx + 1 < int (length samples) then
         ebind (py_getitem samples idx) (\<lambda>a.
         ebind (int_sub_float 1 frac) (\<lambda>w.
         ebind (py_getitem samples (idx + 1)) (\<lambda>b.
           Inr (fadd (fmul a w) (fmul b frac)))))
       else if idx < int (length samples) then py_getitem samples idx
       else Inr (Fin 0))))"

definition resample :: "pyfloat list \<Rightarrow> int \<Rightarrow> int \<Rightarrow> error + pyfloat list" where
  "resample samples from_rate to_rate =
     (if from_rate = to_rate then Inr samples
      else
        ebind (int_truediv from_rate to_rate) (\<lambda>ratio.
        ebind (int_div_float (int (length samples)) ratio) (\<lambda>q.
        ebind (float_to_int q) (\<lambda>new_length.
          map_err (resample_at samples ratio) (py_range 0 new_length)))))"

section \<open>The random source\<close>

text \<open>
  The generator of the \<open>random\<close> module is a sequence of raw draws and a position in it;
  every call takes the next draw. \<open>random()\<close> is a multiple of \<open>2 ^ - 53\<close> below one,
  \<open>uniform(a, b)\<close> is \<open>a + (b - a) * random()\<close>, and \<open>randint(a, b)\<close> is an integer
  from \<open>a\<close> to \<open>b\<close>, a ValueError when there is none. The integer arguments that the
  pipeline passes to \<open>uniform\<close> are small, so they are given as the floats they convert to.
\<close>

record rng =
  draws :: "nat \<Rightarrow> nat"
  pos :: nat

definition next_raw :: "rng \<Rightarrow> nat \<times> rng" where
  "next_raw g = (draws g (pos g), g\<lparr>pos := Suc (pos g)\<rparr>)"

definition random_unit :: "rng \<Rightarrow> pyfloat \<times> rng" where
  "random_unit g =
     (case next_raw g of (k, g') \<Rightarrow> (Fin (of_int (int k mod 2 ^ 53) / 2 ^ 53), g'))"

definition uniform :: "pyfloat \<Rightarrow> pyfloat \<Rightarrow> rng \<Rightarrow> pyfloat \<times> rng" where
  "uniform a b g =
     (case random_unit g of (u, g') \<Rightarrow> (fadd a (fmul (fsub b a) u), g'))"

definition randint :: "int \<Rightarrow> int \<Rightarrow> rng \<Rightarrow> error + (int \<times> rng)" where
  "randint a b g =
     (if b < a then Inl ValueError
      else case next_raw g of (k, g') \<Rightarrow> Inr (a + int k mod (b - a + 1), g'))"

section \<open>NoiseSynthesizer: \<open>_add_noise\<close>\<close>

text \<open>
  The buffer is updated in place; the state of every loop is the buffer and the random
  source. In \<open>samples[i] += e\<close> the element is read, then \<open>e\<close> is evaluated, then the sum
  is stored.
\<close>

type_synonym noise_state = "pyfloat list \<times> rng"

text \<open>Loop 1: \<open>samples[i] += random.uniform(-noise_vol, noise_vol)\<close>; loop 3 does the same with \<open>crackle_vol\<close>.\<close>

definition add_uniform_at :: "pyfloat \<Rightarrow> int \<Rightarrow> noise_state \<Rightarrow> error + noise_state" where
  "add_uniform_at vol i st =
     (case st of (samples, g) \<Rightarrow>
        ebind (py_getitem samples i) (\<lambda>x.
          case uniform (fneg vol) vol g of (v, g') \<Rightarrow>
            ebind (py_setitem samples i (fadd x v)) (\<lambda>samples'. Inr (samples', g'))))"

definition white_noise :: "int \<Rightarrow> noise_state \<Rightarrow> error + noise_state" where
  "white_noise n st =
     (case st of (samples, g) \<Rightarrow>
        case uniform (b64_round (2 / 100)) (b64_round (6 / 100)) g of (noise_vol, g1) \<Rightarrow>
          for_loop (py_range 0 n) (add_uniform_at noise_vol) (samples, g1))"

text \<open>Loop 2: \<open>samples[i] += hum_vol * math.sin(2 * math.pi * hum_freq * t)\<close>.\<close>

definition hum_at ::
  "(rat \<Rightarrow> rat) \<Rightarrow> pyfloat \<Rightarrow> pyfloat \<Rightarrow> int \<Rightarrow> int \<Rightarrow> noise_state \<Rightarrow> error + noise_state" where
  "hum_at sin_impl hum_freq hum_vol sample_rate i st =
     (case st of (samples, g) \<Rightarrow>
        ebind (int_truediv i sample_rate) (\<lambda>t.
        ebind (py_getitem samples i) (\<lambda>x.
        ebind (py_sin sin_impl (fmul (fmul (fmul (Fin 2) math_pi) hum_freq) t)) (\<lambda>s.
        ebind (py_setitem samples i (fadd x (fmul hum_vol s))) (\<lambda>samples'.
          Inr (samples', g))))))"

definition hum ::
  "(rat \<Rightarrow> rat) \<Rightarrow> int \<Rightarrow> int \<Rightarrow> noise_state \<Rightarrow> error + noise_state" where
  "hum sin_impl sample_rate n st =
     (case st of (samples, g) \<Rightarrow>
        case uniform (Fin 45) (Fin 65) g of (hum_freq, g1) \<Rightarrow>
        case uniform (b64_round (2 / 100)) (b64_round (5 / 100)) g1 of (hum_vol, g2) \<Rightarrow>
          for_loop (py_range 0 n)
            (hum_at sin_impl hum_freq hum_vol sample_rate) (samples, g2))"

text \<open>
  Loop 3, one burst: the three draws, then the additions over
  \<open>range(start, min(start + length, n))\<close>, where \<open>n\<close> is the length taken at the start.
\<close>

definition crackle_burst :: "int \<Rightarrow> noise_state \<Rightarrow> error + noise_state" where
  "crackle_burst n st =
     (case st of (samples, g) \<Rightarrow>
        ebind (randint 0 (max 0 (n - 500)) g) (\<lambda>(start, g1).
        ebind (randint 80 300 g1) (\<lambda>(len, g2).
          case uniform (b64_round (3 / 100)) (b64_round (8 / 100)) g2 of (crackle_vol, g3) \<Rightarrow>
            for_loop (py_range start (min (start + len) n))
              (add_uniform_at crackle_vol) (samples, g3))))"

definition crackle :: "int \<Rightarrow> noise_state \<Rightarrow> error + noise_state" where
  "crackle n st =
     (case st of (samples, g) \<Rightarrow>
        ebind (randint 3 8 g) (\<lambda>(bursts, g1).
          for_loop (py_range 0 bursts) (\<lambda>k. crackle_burst n) (samples, g1)))"

text \<open>Loop 4: \<open>samples[i] *= (1.0 + warble_depth * math.sin(2 * math.pi * warble_freq * t))\<close>.\<close>

definition warble_at ::
  "(rat \<Rightarrow> rat) \<Rightarrow> pyfloat \<Rightarrow> pyfloat \<Rightarrow> int \<Rightarrow> int \<Rightarrow> noise_state \<Rightarrow> error + noise_state" where
  "warble_at sin_impl warble_freq warble_depth sample_rate i st =
     (case st of (samples, g) \<Rightarrow>
        ebind (int_truediv i sample_rate) (\<lambda>t.
        ebind (py_getitem samples i) (\<lambda>x.
        ebind (py_sin sin_impl (fmul (fmul (fmul (Fin 2) math_pi) warble_freq) t)) (\<lambda>s.
        ebind (py_setitem samples i (fmul x (fadd (Fin 1) (fmul warble_depth s)))) (\<lambda>samples'.
          Inr (samples', g))))))"

definition warble ::
  "(rat \<Rightarrow> rat) \<Rightarrow> int \<Rightarrow> int \<Rightarrow> noise_state \<Rightarrow> error + noise_state" where
  "warble sin_impl sample_rate n st =
     (case st of (samples, g) \<Rightarrow>
        case uniform (Fin 2) (Fin 4) g of (warble_freq, g1) \<Rightarrow>
        case uniform (b64_round (3 / 1000)) (b64_round (8 / 1000)) g1 of (warble_depth, g2) \<Rightarrow>
          for_loop (py_range 0 n)
            (warble_at sin_impl warble_freq warble_depth sample_rate) (samples, g2))"

definition add_noise ::
  "(rat \<Rightarrow> rat) \<Rightarrow> pyfloat list \<Rightarrow> int \<Rightarrow> rng \<Rightarrow> error + noise_state" where
  "add_noise sin_impl samples sample_rate g =
     (let n = int (length samples) in
        ebind (white_noise n (samples, g)) (\<lambda>st1.
        ebind (hum sin_impl sample_rate n st1) (\<lambda>st2.
        ebind (crackle n st2) (\<lambda>st3.
          warble sin_impl sample_rate n st3))))"

section \<open>WaveformEncoder: \<open>_samples_to_wav\<close>\<close>

text \<open>\<open>struct.pack('<h', v)\<close>: two bytes, low byte first; out of range it raises.\<close>

definition le16 :: "int \<Rightarrow> byte list" where
  "le16 v = [word_of_int v, word_of_int (v div 256)]"

definition pack_h :: "int \<Rightarrow> error + byte list" where
  "pack_h v = (if in_s16 v then Inr (le16 v) else Inl StructError)"

text \<open>\<open>clamped = max(-1.0, min(1.0, s))\<close> and \<open>int(clamped * 32767)\<close>.\<close>

definition clamp :: "pyfloat \<Rightarrow> pyfloat" where
  "clamp s = py_max (Fin (- 1)) (py_min (Fin 1) s)"

definition quantize :: "pyfloat \<Rightarrow> error + int" where
  "quantize s = ebind (float_mul_int (clamp s) 32767) float_to_int"

definition pack_samples :: "pyfloat list \<Rightarrow> error + byte list" where
  "pack_samples samples =
     for_loop samples
       (\<lambda>s packed. ebind (quantize s) (\<lambda>v. ebind (pack_h v) (\<lambda>b. Inr (packed @ b)))) []"

text \<open>
  The writing side of the container library: \<open>set_params\<close> stands for the three setters
  (the exception one of them raises, if any), \<open>write_frames\<close> for \<open>writeframes\<close>, the close
  at the end of the \<open>with\<close> block and \<open>getvalue\<close>: the bytes of the container.
\<close>

record wave_writer =
  set_params :: "nat \<Rightarrow> nat \<Rightarrow> int \<Rightarrow> error option"
  write_frames :: "wave_params \<Rightarrow> error + byte list"

definition samples_to_wav :: "wave_writer \<Rightarrow> pyfloat list \<Rightarrow> int \<Rightarrow> error + byte list" where
  "samples_to_wav W samples sample_rate =
     (case set_params W 1 2 sample_rate of
        Some e \<Rightarrow> Inl e
      | None \<Rightarrow>
          ebind (pack_samples samples) (\<lambda>packed.
            write_frames W
              \<lparr>nchannels = 1, sampwidth = 2, framerate = sample_rate, frames = packed\<rparr>))"

subsection \<open>The writer of the container library\<close>

text \<open>
  The writer of Python's \<open>wave\<close> module (\<open>Wave_write\<close>), as far as the encoder drives it.
  The setters accept a channel count of at least 1, a sample width from 1 to 4 bytes and
  a positive frame rate, and raise \<open>wave.Error\<close> otherwise. Writing the frames puts the
  44-byte header before them; the header is packed by \<open>struct.pack\<close> with the format
  \<open><L4s4sLHHLLHH4s\<close> and a final \<open><L\<close>, which raises \<open>struct.error\<close> when a field does
  not fit: the two lengths, the frame rate and the byte rate are unsigned 32-bit fields,
  the channel count, the block size and the bit depth are unsigned 16-bit fields.
\<close>

definition le32 :: "int \<Rightarrow> byte list" where
  "le32 v =
     [word_of_int v, word_of_int (v div 256), word_of_int (v div 65536),
      word_of_int (v div 16777216)]"

definition riff_header :: "nat \<Rightarrow> nat \<Rightarrow> int \<Rightarrow> nat \<Rightarrow> byte list" where
  "riff_header channels width rate n =
     [82, 73, 70, 70] @ le32 (36 + int n) @ [87, 65, 86, 69]
     @ [102, 109, 116, 32] @ le32 16 @ le16 1 @ le16 (int channels) @ le32 rate
     @ le32 (int channels * rate * int width) @ le16 (int channels * int width)
     @ le16 (int width * 8)
     @ [100, 97, 116, 97] @ le32 (int n)"

definition wave_accepts :: "nat \<Rightarrow> nat \<Rightarrow> int \<Rightarrow> bool" where
  "wave_accepts channels width rate \<longleftrightarrow>
     1 \<le> channels \<and> 1 \<le> width \<and> width \<le> 4 \<and> 0 < rate"

definition header_fits :: "nat \<Rightarrow> nat \<Rightarrow> int \<Rightarrow> nat \<Rightarrow> bool" where
  "header_fits channels width rate n \<longleftrightarrow>
     36 + int n < 4294967296 \<and> int channels < 65536 \<and> rate < 4294967296
     \<and> int channels * rate * int width < 4294967296
     \<and> int channels * int width < 65536 \<and> int width * 8 < 65536"

definition wave_write :: wave_writer where
  "wave_write =
     \<lparr>set_params = (\<lambda>channels width rate.
        if wave_accepts channels width rate then None else Some WaveError),
      write_frames = (\<lambda>c.
        if wave_accepts (nchannels c) (sampwidth c) (framerate c) then
          if header_fits (nchannels c) (sampwidth c) (framerate c) (length (frames c))
          then Inr (riff_header (nchannels c) (sampwidth c) (framerate c) (length (frames c))
                    @ frames c)
          else Inl StructError
        else Inl WaveError)\<rparr>"

section \<open>AudioCaptchaPipeline: \<open>generate_text\<close>, \<open>generate_audio\<close>, \<open>generate\<close>\<close>

text \<open>
  \<open>random.choices(population, k=k)\<close> without weights: \<open>n = len(population) + 0.0\<close>, then
  \<open>k\<close> times \<open>population[floor(random() * n)]\<close>.
\<close>

fun choices_loop :: "'a list \<Rightarrow> pyfloat \<Rightarrow> nat \<Rightarrow> rng \<Rightarrow> error + ('a list \<times> rng)" where
  "choices_loop population n 0 g = Inr ([], g)"
| "choices_loop population n (Suc k) g =
     (case random_unit g of (u, g1) \<Rightarrow>
        ebind (float_floor (fmul u n)) (\<lambda>idx.
        ebind (py_getitem population idx) (\<lambda>c.
        ebind (choices_loop population n k g1) (\<lambda>(cs, g2). Inr (c # cs, g2)))))"

definition choices :: "'a list \<Rightarrow> int \<Rightarrow> rng \<Rightarrow> error + ('a list \<times> rng)" where
  "choices population k g =
     ebind (float_of_int (int (length population))) (\<lambda>n.
       choices_loop population (fadd n (Fin 0)) (nat k) g)"

text \<open>\<open>self.characters = string.digits\<close>; the joined choices are the text.\<close>

definition characters :: string where
  "characters = ''0123456789''"

definition generate_text :: "int \<Rightarrow> rng \<Rightarrow> error + (string \<times> rng)" where
  "generate_text len g = choices characters len g"

text \<open>The table \<open>CHAR_TO_WORD\<close>; a character without an entry is spoken as itself.\<close>

definition CHAR_TO_WORD :: "(char \<times> string) list" where
  "CHAR_TO_WORD =
     [(CHR ''0'', ''zero''), (CHR ''1'', ''one''), (CHR ''2'', ''two''), (CHR ''3'', ''three''),
      (CHR ''4'', ''four''), (CHR ''5'', ''five''), (CHR ''6'', ''six''), (CHR ''7'', ''seven''),
      (CHR ''8'', ''eight''), (CHR ''9'', ''nine''),
      (CHR ''A'', ''ay''), (CHR ''B'', ''bee''), (CHR ''C'', ''see''), (CHR ''D'', ''dee''),
      (CHR ''E'', ''ee''), (CHR ''F'', ''eff''), (CHR ''G'', ''jee''), (CHR ''H'', ''aitch''),
      (CHR ''J'', ''jay''), (CHR ''K'', ''kay''), (CHR ''L'', ''ell''), (CHR ''M'', ''em''),
      (CHR ''N'', ''en''), (CHR ''P'', ''pee''), (CHR ''Q'', ''queue''), (CHR ''R'', ''are''),
      (CHR ''S'', ''ess''), (CHR ''T'', ''tee''), (CHR ''U'', ''you''), (CHR ''V'', ''vee''),
      (CHR ''W'', ''double you''), (CHR ''X'', ''ex''), (CHR ''Y'', ''why''), (CHR ''Z'', ''zed'')]"

definition spoken_word :: "char \<Rightarrow> string" where
  "spoken_word c = (case map_of CHAR_TO_WORD c of None \<Rightarrow> [c] | Some w \<Rightarrow> w)"

fun join :: "string \<Rightarrow> string list \<Rightarrow> string" where
  "join sep [] = []"
| "join sep [w] = w"
| "join sep (w # ws) = w @ sep @ join sep ws"

definition spoken_text :: "string \<Rightarrow> string" where
  "spoken_text txt = join '' .... '' (map spoken_word txt)"

text \<open>
  The collaborators outside the repository: the speech engine behind
  \<open>_generate_speech_wav\<close> (it draws from the random source and returns the bytes of a
  container, or fails), the two sides of the container library, the sine of the C
  library and \<open>base64.b64encode\<close>.
\<close>

record collaborators =
  speech :: "string \<Rightarrow> rng \<Rightarrow> error + (byte list \<times> rng)"
  reader :: "byte list \<Rightarrow> error + wave_params"
  writer :: wave_writer
  sine :: "rat \<Rightarrow> rat"
  b64encode :: "byte list \<Rightarrow> string"

definition generate_audio :: "collaborators \<Rightarrow> string \<Rightarrow> rng \<Rightarrow> error + (byte list \<times> rng)" where
  "generate_audio E txt g =
     ebind (speech E (spoken_text txt) g) (\<lambda>(wav_bytes, g1).
     ebind (wav_to_samples (reader E) wav_bytes) (\<lambda>(float_samples, original_rate).
     ebind (if original_rate \<noteq> 22050 then resample float_samples original_rate 22050
            else Inr float_samples) (\<lambda>float_samples.
     ebind (add_noise (sine E) float_samples 22050 g1) (\<lambda>(float_samples, g2).
     ebind (samples_to_wav (writer E) float_samples 22050) (\<lambda>wav. Inr (wav, g2))))))"

record captcha =
  captcha_text :: string
  captcha_audio :: string

definition generate :: "collaborators \<Rightarrow> int \<Rightarrow> rng \<Rightarrow> error + (captcha \<times> rng)" where
  "generate E len g =
     ebind (generate_text len g) (\<lambda>(txt, g1).
     ebind (generate_audio E txt g1) (\<lambda>(wav_bytes, g2).
       Inr (\<lparr>captcha_text = txt,
            captcha_audio = ''data:audio/wav;base64,'' @ b64encode E wav_bytes\<rparr>, g2)))"

section \<open>Notions used in the statements\<close>

text \<open>The float that normalisation yields for a 16-bit sample: the exact quotient.\<close>

definition norm16 :: "int \<Rightarrow> pyfloat" where
  "norm16 s = Fin (of_int s / 32768)"

text \<open>
  The average of two samples as the specification words it: integer division that
  truncates, rounding towards zero.
\<close>

definition trunc_avg :: "int \<Rightarrow> int \<Rightarrow> int" where
  "trunc_avg l r = (l + r) sdiv 2"

text \<open>
  The 16-bit sample at position \<open>k\<close> of the frame bytes: for a width of one byte the
  unsigned byte moved to the signed 16-bit range, for two bytes the little-endian signed
  value of bytes \<open>2k\<close> and \<open>2k + 1\<close>, for a wider sample the little-endian signed value of
  the \<open>k\<close>-th group of \<open>width\<close> bytes shifted right by \<open>8 * (width - 2)\<close> bits. The frame
  bytes hold one sample for each started group.
\<close>

definition pcm16 :: "nat \<Rightarrow> byte list \<Rightarrow> nat \<Rightarrow> int" where
  "pcm16 width raw k =
     (if width = 1 then (uint (raw ! k) - 128) * 256
      else if width = 2 then s16_le (raw ! (2 * k)) (raw ! (2 * k + 1))
      else from_bytes_le_signed (take width (drop (k * width) raw)) div 2 ^ (8 * (width - 2)))"

definition pcm_samples :: "nat \<Rightarrow> byte list \<Rightarrow> int list" where
  "pcm_samples width raw = map (pcm16 width raw) [0..<(length raw + width - 1) div width]"





text \<open>The rational a finite float denotes.\<close>

fun fin_val :: "pyfloat \<Rightarrow> rat" where
  "fin_val (Fin r) = r"
| "fin_val x = 0"

text \<open>
  The 16-bit value of a sample as the specification words it: clamp, multiply by 32767
  (a float multiplication), truncate.
\<close>

definition quantized :: "pyfloat \<Rightarrow> int" where
  "quantized s = trunc_zero (fin_val (fmul (clamp s) (Fin 32767)))"


text \<open>A finite float of magnitude at most \<open>2 ^ k\<close>.\<close>

definition fin_le :: "pyfloat \<Rightarrow> int \<Rightarrow> bool" where
  "fin_le x k = (case x of Fin r \<Rightarrow> \<bar>r\<bar> \<le> pow2 k | _ \<Rightarrow> False)"

text \<open>The state after a loop: same length, and untouched outside the indices of the loop.\<close>

definition frame_of :: "pyfloat list \<Rightarrow> int list \<Rightarrow> noise_state \<Rightarrow> bool" where
  "frame_of xs js st \<longleftrightarrow>
     length (fst st) = length xs \<and> (\<forall>j < length xs. int j \<notin> set js \<longrightarrow> fst st ! j = xs ! j)"

text \<open>A pass keeps the length of the buffer.\<close>

definition same_length :: "nat \<Rightarrow> noise_state \<Rightarrow> bool" where
  "same_length n st \<longleftrightarrow> length (fst st) = n"

text \<open>
  The output sample at index \<open>i\<close> as the specification words it, every operation being
  the float operation: \<open>src = i * ratio\<close>, \<open>idx = floor(src)\<close>, \<open>frac = src - idx\<close>, the
  linear interpolation when \<open>idx + 1\<close> is in bounds, else \<open>sample[idx]\<close> when \<open>idx\<close> is,
  else \<open>0.0\<close>.
\<close>

definition interp :: "pyfloat list \<Rightarrow> pyfloat \<Rightarrow> nat \<Rightarrow> pyfloat" where
  "interp samples ratio i =
     (let src = fmul (b64_round (of_nat i)) ratio;
          idx = nat \<lfloor>fin_val src\<rfloor>;
          frac = fsub src (b64_round (of_nat idx))
      in if idx + 1 < length samples
         then fadd (fmul (samples ! idx) (fsub (Fin 1) frac)) (fmul (samples ! (idx + 1)) frac)
         else if idx < length samples then samples ! idx
         else Fin 0)"

text \<open>An ASCII digit.\<close>

definition digit :: "char \<Rightarrow> bool" where
  "digit c = (c \<in> set ''0123456789'')"

section \<open>Facts about binary64 rounding\<close>

subsection \<open>Powers of two and the binary logarithm\<close>

lemma pow2_code [code]:
  "pow2 e = (if 0 \<le> e then efficient_funpow (*) 1 2 (nat e)
             else 1 / efficient_funpow (*) 1 2 (nat (- e)))"
  by (simp add: pow2_def power_by_squaring)

lemma pow2_powi: "pow2 e = 2 powi e"
  by (simp add: pow2_def power_int_def inverse_eq_divide power_one_over)

lemma pow2_pos [simp]: "0 < pow2 e"
  by (simp add: pow2_powi)

lemma pow2_abs [simp]: "\<bar>pow2 e\<bar> = pow2 e"
  using pow2_pos[of e] by linarith

lemma pow2_neq0 [simp]: "pow2 e \<noteq> 0"
  using pow2_pos[of e] by linarith

lemma pow2_add: "pow2 (a + b) = pow2 a * pow2 b"
  by (simp add: pow2_powi power_int_add)

lemma pow2_diff: "pow2 (a - b) = pow2 a / pow2 b"
  by (simp add: pow2_powi power_int_diff)

lemma pow2_mono: "a \<le> b \<Longrightarrow> pow2 a \<le> pow2 b"
  by (simp add: pow2_powi power_int_increasing)

lemma pow2_strict_mono: "a < b \<Longrightarrow> pow2 a < pow2 b"
  by (simp add: pow2_powi power_int_strict_increasing)

lemma pow2_less_iff: "pow2 a < pow2 b \<longleftrightarrow> a < b"
  using pow2_strict_mono[of a b] pow2_mono[of b a] by (auto simp: not_le[symmetric])

lemma pow2_le_iff: "pow2 a \<le> pow2 b \<longleftrightarrow> a \<le> b"
  using pow2_strict_mono[of b a] pow2_mono[of a b] by (auto simp: not_less[symmetric])

lemma pow2_nat: "pow2 (int n) = 2 ^ n"
  by (simp add: pow2_def)

lemma pow2_of_int: "0 \<le> e \<Longrightarrow> pow2 e = of_int (2 ^ nat e)"
  by (simp add: pow2_def)

lemma bitlen_pow2_bounds:
  assumes "0 < a"
  shows "pow2 (bitlen a - 1) \<le> of_int a" and "of_int a < pow2 (bitlen a)"
proof -
  have bl: "1 \<le> bitlen a" using assms by (auto simp: bitlen_alt_def)
  have "(2::int) ^ nat (bitlen a - 1) \<le> a" "a < 2 ^ nat (bitlen a)"
    using bitlen_bounds[OF assms] by auto
  then have "(of_int (2 ^ nat (bitlen a - 1)) :: rat) \<le> of_int a"
    "(of_int a :: rat) < of_int (2 ^ nat (bitlen a))"
    by (simp_all only: of_int_le_iff of_int_less_iff)
  then show "pow2 (bitlen a - 1) \<le> of_int a" "of_int a < pow2 (bitlen a)"
    using bl by (simp_all add: pow2_of_int)
qed

lemma ilog2_bounds:
  assumes "0 < q"
  shows "pow2 (ilog2 q) \<le> q" and "q < pow2 (ilog2 q + 1)"
proof -
  obtain a b where ab: "quotient_of q = (a, b)" by (cases "quotient_of q")
  have b: "0 < b" using ab quotient_of_denom_pos by blast
  have q: "q = of_int a / of_int b" using ab quotient_of_div by blast
  have a: "0 < a" using assms b q by (simp add: zero_less_divide_iff)
  define d where "d = bitlen a - bitlen b"
  note la = bitlen_pow2_bounds[OF a] and lb = bitlen_pow2_bounds[OF b]
  have rb: "(0::rat) < of_int b" using b by simp
  have "pow2 (d - 1) * of_int b < pow2 (d - 1) * pow2 (bitlen b)"
    using lb(2) by simp
  also have "\<dots> = pow2 (bitlen a - 1)"
    by (simp add: pow2_add[symmetric] d_def)
  also have "\<dots> \<le> of_int a" by (rule la(1))
  finally have lo: "pow2 (d - 1) < q"
    using rb by (simp add: q pos_less_divide_eq)
  have "of_int a < pow2 (bitlen a)" by (rule la(2))
  also have "\<dots> = pow2 (d + 1) * pow2 (bitlen b - 1)"
    by (simp add: pow2_add[symmetric] d_def)
  also have "\<dots> \<le> pow2 (d + 1) * of_int b"
    using lb(1) by simp
  finally have hi: "q < pow2 (d + 1)"
    using rb by (simp add: q pos_divide_less_eq)
  have il: "ilog2 q = (if pow2 d \<le> q then d else d - 1)"
    by (simp add: ilog2_def ab d_def Let_def)
  show "pow2 (ilog2 q) \<le> q" using lo by (auto simp: il)
  show "q < pow2 (ilog2 q + 1)" using hi by (auto simp: il)
qed

lemma ilog2_unique:
  assumes "pow2 k \<le> q" "q < pow2 (k + 1)"
  shows "ilog2 q = k"
proof -
  have q: "0 < q" using assms(1) pow2_pos[of k] by linarith
  note b = ilog2_bounds[OF q]
  have "pow2 k < pow2 (ilog2 q + 1)" using assms(1) b(2) by linarith
  moreover have "pow2 (ilog2 q) < pow2 (k + 1)" using assms(2) b(1) by linarith
  ultimately show ?thesis by (simp add: pow2_less_iff)
qed

lemma ilog2_le:
  assumes "0 < q" "q < pow2 k"
  shows "ilog2 q < k"
  using ilog2_bounds(1)[OF assms(1)] assms(2) pow2_less_iff[of "ilog2 q" k] by linarith

lemma ilog2_mono:
  assumes "0 < p" "p \<le> q"
  shows "ilog2 p \<le> ilog2 q"
proof -
  have q: "0 < q" using assms by linarith
  have "pow2 (ilog2 p) < pow2 (ilog2 q + 1)"
    using ilog2_bounds(1)[OF assms(1)] ilog2_bounds(2)[OF q] assms(2) by linarith
  then show ?thesis by (simp add: pow2_less_iff)
qed

lemma b64_exp_mono: "q \<noteq> 0 \<Longrightarrow> \<bar>q\<bar> \<le> \<bar>p\<bar> \<Longrightarrow> b64_exp q \<le> b64_exp p"
  using ilog2_mono[of "\<bar>q\<bar>" "\<bar>p\<bar>"] by (simp add: b64_exp_def)

subsection \<open>Rounding to an integer\<close>

lemma round_half_even_of_int [simp]: "round_half_even (of_int m) = m"
  by (simp add: round_half_even_def)

lemma round_half_even_cases:
  "round_half_even y = \<lfloor>y\<rfloor> \<and> y - of_int \<lfloor>y\<rfloor> \<le> 1 / 2
   \<or> round_half_even y = \<lfloor>y\<rfloor> + 1 \<and> 1 / 2 \<le> y - of_int \<lfloor>y\<rfloor>"
  by (auto simp: round_half_even_def Let_def)

lemma round_half_even_near:
  "\<bar>of_int (round_half_even y) - y\<bar> \<le> 1 / 2"
proof -
  have fl: "of_int \<lfloor>y\<rfloor> \<le> y" "y < of_int \<lfloor>y\<rfloor> + 1" by linarith+
  from round_half_even_cases[of y] show ?thesis
  proof
    assume "round_half_even y = \<lfloor>y\<rfloor> \<and> y - of_int \<lfloor>y\<rfloor> \<le> 1 / 2"
    then show ?thesis using fl by (simp add: abs_le_iff)
  next
    assume "round_half_even y = \<lfloor>y\<rfloor> + 1 \<and> 1 / 2 \<le> y - of_int \<lfloor>y\<rfloor>"
    then show ?thesis using fl by (simp add: abs_le_iff)
  qed
qed

lemma round_half_even_le:
  assumes "y \<le> of_int m"
  shows "round_half_even y \<le> m"
proof (cases "y = of_int m")
  case True
  then show ?thesis by simp
next
  case False
  then have lt: "y < of_int m" using assms by simp
  then have "\<lfloor>y\<rfloor> < m" by (simp add: floor_less_iff)
  then show ?thesis using round_half_even_cases[of y] by auto
qed

lemma round_half_even_ge:
  assumes "of_int m \<le> y"
  shows "m \<le> round_half_even y"
proof -
  have "m \<le> \<lfloor>y\<rfloor>" using assms by (simp add: le_floor_iff)
  then show ?thesis using round_half_even_cases[of y] by auto
qed

lemma round_half_even_nonneg: "0 \<le> y \<Longrightarrow> 0 \<le> round_half_even y"
  using round_half_even_ge[of 0 y] by simp

lemma round_half_even_nonpos: "y \<le> 0 \<Longrightarrow> round_half_even y \<le> 0"
  using round_half_even_le[of y 0] by simp

subsection \<open>Rounding to binary64\<close>

lemma b64_round_eq:
  assumes "q \<noteq> 0"
  shows "b64_round q =
    (let r = of_int (round_half_even (q / pow2 (b64_exp q))) * pow2 (b64_exp q)
     in if pow2 1024 \<le> \<bar>r\<bar> then (if 0 < q then PInf else NInf) else Fin r)"
  using assms by (simp add: b64_round_def Let_def)

lemma b64_round_exact:
  assumes q: "q = of_int m * pow2 e" and m: "\<bar>m\<bar> < 2 ^ 53" and e: "- 1074 \<le> e"
    and fin: "\<bar>q\<bar> < pow2 1024"
  shows "b64_round q = Fin q"
proof (cases "q = 0")
  case True
  then show ?thesis by (simp add: b64_round_def)
next
  case False
  define f where "f = b64_exp q"
  have aq: "0 < \<bar>q\<bar>" using False by simp
  have "\<bar>q\<bar> = of_int \<bar>m\<bar> * pow2 e" by (simp add: q abs_mult)
  also have "\<dots> < of_int (2 ^ 53) * pow2 e"
    using m by (simp only: mult_less_cancel_right_pos[OF pow2_pos] of_int_less_iff)
  also have "\<dots> = pow2 53 * pow2 e" by (simp add: pow2_powi)
  also have "\<dots> = pow2 (53 + e)" by (simp add: pow2_add)
  finally have "ilog2 \<bar>q\<bar> < 53 + e" using ilog2_le[OF aq] by simp
  then have fe: "f \<le> e" using e by (simp add: f_def b64_exp_def)
  define k where "k = m * 2 ^ nat (e - f)"
  have pe: "pow2 e = of_int (2 ^ nat (e - f)) * pow2 f"
    using fe pow2_add[of "e - f" f] by (simp add: pow2_of_int)
  have qk: "q = of_int k * pow2 f"
    by (simp add: q pe k_def)
  then have "q / pow2 f = of_int k" by simp
  then have "round_half_even (q / pow2 f) = k"
    by (simp only: round_half_even_of_int)
  then have "of_int (round_half_even (q / pow2 f)) * pow2 f = q"
    using qk by simp
  then show ?thesis using False fin
    by (simp add: b64_round_eq f_def[symmetric] Let_def)
qed


lemma b64_mantissa_bounds:
  assumes "q \<noteq> 0"
  shows "\<bar>round_half_even (q / pow2 (b64_exp q))\<bar> \<le> 2 ^ 53"
    and "- 1074 < b64_exp q \<Longrightarrow> 2 ^ 52 \<le> \<bar>round_half_even (q / pow2 (b64_exp q))\<bar>"
proof -
  define e where "e = b64_exp q"
  define y where "y = q / pow2 e"
  have aq: "0 < \<bar>q\<bar>" using assms by simp
  have ay: "\<bar>y\<bar> = \<bar>q\<bar> / pow2 e" by (simp add: y_def)
  have "ilog2 \<bar>q\<bar> + 1 \<le> e + 53" by (simp add: e_def b64_exp_def)
  then have "pow2 (ilog2 \<bar>q\<bar> + 1) \<le> pow2 (e + 53)" by (rule pow2_mono)
  then have "\<bar>q\<bar> < pow2 (e + 53)" using ilog2_bounds(2)[OF aq] by linarith
  then have "\<bar>q\<bar> < pow2 53 * pow2 e" by (simp add: pow2_add mult.commute)
  then have "\<bar>y\<bar> < pow2 53" by (simp add: ay pos_divide_less_eq)
  then have yb: "y \<le> of_int (2 ^ 53)" "of_int (- (2 ^ 53)) \<le> y"
    by (simp_all add: pow2_powi abs_less_iff)
  have "round_half_even y \<le> 2 ^ 53" using yb(1) by (rule round_half_even_le)
  moreover have "- (2 ^ 53) \<le> round_half_even y" using yb(2) by (rule round_half_even_ge)
  ultimately show "\<bar>round_half_even (q / pow2 (b64_exp q))\<bar> \<le> 2 ^ 53"
    by (simp add: y_def e_def abs_le_iff)
  show "2 ^ 52 \<le> \<bar>round_half_even (q / pow2 (b64_exp q))\<bar>" if "- 1074 < b64_exp q"
  proof -
    have "e = ilog2 \<bar>q\<bar> - 52" using that by (simp add: e_def b64_exp_def)
    then have "pow2 (e + 52) \<le> \<bar>q\<bar>" using ilog2_bounds(1)[OF aq] by simp
    then have "pow2 52 * pow2 e \<le> \<bar>q\<bar>" by (simp add: pow2_add mult.commute)
    then have lb: "pow2 52 \<le> \<bar>y\<bar>" by (simp add: ay pos_le_divide_eq)
    show ?thesis
    proof (cases "0 \<le> y")
      case True
      then have "of_int (2 ^ 52) \<le> y" using lb by (simp add: pow2_powi)
      then have "2 ^ 52 \<le> round_half_even y" by (rule round_half_even_ge)
      then show ?thesis by (simp add: y_def e_def)
    next
      case False
      then have "y \<le> of_int (- (2 ^ 52))" using lb by (simp add: pow2_powi)
      then have "round_half_even y \<le> - (2 ^ 52)" by (rule round_half_even_le)
      then show ?thesis by (simp add: y_def e_def)
    qed
  qed
qed

lemma b64_overflow_iff:
  assumes "q \<noteq> 0"
  shows "pow2 1024 \<le> \<bar>of_int (round_half_even (q / pow2 (b64_exp q))) * pow2 (b64_exp q)\<bar>
     \<longleftrightarrow> 971 < b64_exp q \<or> b64_exp q = 971 \<and> 2 ^ 53 \<le> \<bar>round_half_even (q / pow2 (b64_exp q))\<bar>"
proof -
  define e where "e = b64_exp q"
  define m where "m = round_half_even (q / pow2 e)"
  have ub: "\<bar>m\<bar> \<le> 2 ^ 53" using b64_mantissa_bounds(1)[OF assms] by (simp add: m_def e_def)
  have r: "\<bar>of_int (round_half_even (q / pow2 (b64_exp q))) * pow2 (b64_exp q)\<bar>
      = of_int \<bar>m\<bar> * pow2 e"
    by (simp add: abs_mult m_def e_def)
  have ubr: "(of_int \<bar>m\<bar> :: rat) \<le> pow2 53"
    using ub by (simp add: pow2_powi flip: of_int_abs) 
  consider "971 < e" | "e = 971" | "e < 971" by linarith
  then have "pow2 1024 \<le> of_int \<bar>m\<bar> * pow2 e \<longleftrightarrow> 971 < e \<or> e = 971 \<and> 2 ^ 53 \<le> \<bar>m\<bar>"
  proof cases
    case 1
    then have "- 1074 < b64_exp q" by (simp add: e_def)
    then have "2 ^ 52 \<le> \<bar>m\<bar>" using b64_mantissa_bounds(2)[OF assms] by (simp add: m_def e_def)
    then have "(of_int (2 ^ 52) :: rat) \<le> of_int \<bar>m\<bar>" by (simp only: of_int_le_iff)
    then have "pow2 52 \<le> of_int \<bar>m\<bar>" by (simp add: pow2_powi)
    then have "pow2 52 * pow2 e \<le> of_int \<bar>m\<bar> * pow2 e"
      by (simp only: mult_le_cancel_right_pos[OF pow2_pos])
    moreover have "pow2 1024 \<le> pow2 52 * pow2 e"
      unfolding pow2_add[symmetric] using 1 by (intro pow2_mono) simp
    ultimately have "pow2 1024 \<le> of_int \<bar>m\<bar> * pow2 e"
      by (rule order_trans[rotated])
    then show ?thesis using 1 by simp
  next
    case 2
    have "pow2 1024 = pow2 53 * pow2 971" by (simp add: pow2_add[symmetric])
    then have "pow2 1024 \<le> of_int \<bar>m\<bar> * pow2 e \<longleftrightarrow> pow2 53 \<le> of_int \<bar>m\<bar>"
      using 2 by simp
    also have "\<dots> \<longleftrightarrow> (of_int (2 ^ 53) :: rat) \<le> of_int \<bar>m\<bar>" by (simp add: pow2_powi)
    also have "\<dots> \<longleftrightarrow> 2 ^ 53 \<le> \<bar>m\<bar>" by (simp only: of_int_le_iff)
    finally show ?thesis using 2 by simp
  next
    case 3
    have "of_int \<bar>m\<bar> * pow2 e \<le> pow2 53 * pow2 e" using ubr by simp
    also have "\<dots> = pow2 (53 + e)" by (simp add: pow2_add)
    also have "\<dots> < pow2 1024" using 3 by (simp add: pow2_less_iff)
    finally show ?thesis using 3 by simp
  qed
  then show ?thesis unfolding r by (simp only: m_def e_def)
qed

lemma b64_round_code [code]:
  "b64_round q =
     (if q = 0 then Fin 0
      else let e = b64_exp q; m = round_half_even (q / pow2 e)
           in if 971 < e \<or> e = 971 \<and> 9007199254740992 \<le> \<bar>m\<bar>
              then (if 0 < q then PInf else NInf)
              else Fin (of_int m * pow2 e))"
proof (cases "q = 0")
  case True
  then show ?thesis by (simp add: b64_round_def)
next
  case False
  then show ?thesis
    using b64_overflow_iff[OF False] by (simp add: b64_round_def Let_def)
qed

lemma pow2_nonneg [simp]: "0 \<le> pow2 e"
  using pow2_pos[of e] by linarith

lemma b64_round_FinD:
  assumes "b64_round B = Fin B" "B \<noteq> 0"
  shows "\<exists>M. B = of_int M * pow2 (b64_exp B)" and "\<bar>B\<bar> < pow2 1024"
proof -
  define r where "r = of_int (round_half_even (B / pow2 (b64_exp B))) * pow2 (b64_exp B)"
  have "(if pow2 1024 \<le> \<bar>r\<bar> then (if 0 < B then PInf else NInf) else Fin r) = Fin B"
    using assms(1) unfolding b64_round_eq[OF assms(2)] Let_def r_def[symmetric] .
  then have "r = B \<and> \<not> pow2 1024 \<le> \<bar>r\<bar>"
    by (cases "pow2 1024 \<le> \<bar>r\<bar>") (simp_all split: if_splits)
  then have rB: "B = r" and lt: "\<bar>B\<bar> < pow2 1024" by auto
  show "\<exists>M. B = of_int M * pow2 (b64_exp B)" using rB unfolding r_def by (rule exI)
  show "\<bar>B\<bar> < pow2 1024" by (rule lt)
qed

lemma b64_round_bound:
  assumes B: "b64_round B = Fin B" and q: "\<bar>q\<bar> \<le> B"
  shows "\<exists>r. b64_round q = Fin r \<and> \<bar>r\<bar> \<le> B"
proof (cases "q = 0")
  case True
  then show ?thesis using q by (simp add: b64_round_def)
next
  case False
  then have B0: "B \<noteq> 0" and Bpos: "0 < B" using q by auto
  define e where "e = b64_exp B"
  obtain M where M: "B = of_int M * pow2 e"
    using b64_round_FinD(1)[OF B B0] unfolding e_def by blast
  have fin: "B < pow2 1024" using b64_round_FinD(2)[OF B B0] Bpos by simp
  define f where "f = b64_exp q"
  have fe: "f \<le> e" unfolding f_def e_def using q False by (intro b64_exp_mono) simp_all
  define K where "K = M * 2 ^ nat (e - f)"
  have pe: "pow2 e = of_int (2 ^ nat (e - f)) * pow2 f"
    using fe pow2_add[of "e - f" f] by (simp add: pow2_of_int)
  have BK: "B = of_int K * pow2 f" unfolding M pe K_def by simp
  define y where "y = q / pow2 f"
  have "\<bar>y\<bar> = \<bar>q\<bar> / pow2 f" by (simp add: y_def)
  also have "\<dots> \<le> B / pow2 f" using q by (intro divide_right_mono) simp_all
  also have "\<dots> = of_int K" by (simp add: BK)
  finally have yb: "y \<le> of_int K" "of_int (- K) \<le> y" by (simp_all add: abs_le_iff)
  have "round_half_even y \<le> K" using yb(1) by (rule round_half_even_le)
  moreover have "- K \<le> round_half_even y" using yb(2) by (rule round_half_even_ge)
  ultimately have "\<bar>round_half_even y\<bar> \<le> K" by (simp add: abs_le_iff)
  then have "(of_int \<bar>round_half_even y\<bar> :: rat) \<le> of_int K" by (simp only: of_int_le_iff)
  then have "of_int \<bar>round_half_even y\<bar> * pow2 f \<le> of_int K * pow2 f"
    by (simp only: mult_le_cancel_right_pos[OF pow2_pos])
  then have rb: "\<bar>of_int (round_half_even y) * pow2 f\<bar> \<le> B"
    by (simp add: BK abs_mult)
  then have "\<not> pow2 1024 \<le> \<bar>of_int (round_half_even y) * pow2 f\<bar>" using fin by linarith
  then have "b64_round q = Fin (of_int (round_half_even y) * pow2 f)"
    using False by (simp add: b64_round_eq f_def[symmetric] y_def[symmetric] Let_def)
  then show ?thesis using rb by blast
qed

lemma b64_round_sign:
  assumes "b64_round q = Fin r"
  shows "(0 \<le> q \<longrightarrow> 0 \<le> r) \<and> (q \<le> 0 \<longrightarrow> r \<le> 0)"
proof (cases "q = 0")
  case True
  then show ?thesis using assms by (simp add: b64_round_def)
next
  case False
  define y where "y = q / pow2 (b64_exp q)"
  have r: "r = of_int (round_half_even y) * pow2 (b64_exp q)"
    using assms False by (simp add: b64_round_eq y_def Let_def split: if_splits)
  have "0 \<le> q \<Longrightarrow> 0 \<le> round_half_even y"
    by (rule round_half_even_nonneg) (simp add: y_def zero_le_divide_iff)
  moreover have "q \<le> 0 \<Longrightarrow> round_half_even y \<le> 0"
    by (rule round_half_even_nonpos) (simp add: y_def divide_le_0_iff)
  ultimately show ?thesis
    by (auto simp: r zero_le_mult_iff mult_le_0_iff)
qed

section \<open>Facts about the decoder\<close>

lemma ebind_simps [simp]:
  "ebind (Inl e) f = Inl e" "ebind (Inr v) f = f v"
  by (simp_all add: ebind_def)

lemma float_of_int_small:
  assumes "\<bar>i\<bar> < 2 ^ 53"
  shows "float_of_int i = Inr (Fin (of_int i))"
proof -
  have "\<bar>of_int i :: rat\<bar> < of_int (2 ^ 53)"
    using assms by (simp only: of_int_less_iff flip: of_int_abs)
  also have "\<dots> = pow2 53" by (simp add: pow2_powi)
  also have "\<dots> < pow2 1024" by (simp add: pow2_less_iff)
  finally have "b64_round (of_int i) = Fin (of_int i)"
    using assms by (intro b64_round_exact[where m = i and e = 0]) (simp_all add: pow2_def)
  then show ?thesis by (simp add: float_of_int_def)
qed

lemma normalize_one:
  assumes "in_s16 s"
  shows "int_div_float s (Fin 32768) = Inr (Fin (of_int s / 32768))"
proof -
  have s: "\<bar>s\<bar> < 2 ^ 53" using assms by (simp add: in_s16_def abs_less_iff)
  have q: "(of_int s / 32768 :: rat) = of_int s * pow2 (- 15)"
    by (simp add: pow2_def)
  have "\<bar>of_int s / 32768 :: rat\<bar> \<le> 1"
    using assms by (simp add: in_s16_def abs_le_iff)
  also have "\<dots> < pow2 1024" using pow2_less_iff[of 0 1024] by (simp add: pow2_def)
  finally have "b64_round (of_int s / 32768) = Fin (of_int s / 32768)"
    using s by (intro b64_round_exact[where m = s and e = "- 15"]) (simp_all add: q)
  then show ?thesis by (simp add: int_div_float_def float_of_int_small[OF s])
qed

lemma normalize_in_range:
  assumes "\<forall>s \<in> set samples. in_s16 s"
  shows "normalize samples = Inr (map (\<lambda>s. Fin (of_int s / 32768)) samples)"
  using assms by (induction samples) (simp_all add: normalize_def normalize_one)


lemma s16_le_range: "in_s16 (s16_le lo hi)"
proof -
  define u where "u = uint lo + 256 * uint hi"
  have lt: "uint lo < 256" "uint hi < 256"
    using uint_lt2p[of lo] uint_lt2p[of hi] by simp_all
  have nn: "0 \<le> uint lo" "0 \<le> uint hi" by simp_all
  have u: "0 \<le> u" "u < 65536" using lt nn unfolding u_def by linarith+
  have "in_s16 (if u < 32768 then u else u - 65536)"
    using u unfolding in_s16_def by (cases "u < 32768"; simp)
  then show ?thesis unfolding s16_le_def Let_def u_def .
qed

lemma unpack_h_range:
  "unpack_h bs = Inr vs \<Longrightarrow> \<forall>s \<in> set vs. in_s16 s"
  by (induction bs arbitrary: vs rule: unpack_h.induct)
     (auto simp: s16_le_range split: sum.splits)

lemma unpack_h_even:
  "even (length bs) \<Longrightarrow> \<exists>vs. unpack_h bs = Inr vs \<and> 2 * length vs = length bs"
  by (induction bs rule: unpack_h.induct) auto

lemma unpack_h_odd:
  "odd (length bs) \<Longrightarrow> unpack_h bs = Inl StructError"
  by (induction bs rule: unpack_h.induct) auto

lemma u8_sample_range: "in_s16 ((uint (b :: byte) - 128) * 256)"
proof -
  define u where "u = uint b"
  have "u < 256" using uint_lt2p[of b] by (simp add: u_def)
  moreover have "0 \<le> u" by (simp add: u_def)
  ultimately have "in_s16 ((u - 128) * 256)" unfolding in_s16_def by simp
  then show ?thesis by (simp add: u_def)
qed

lemma le_bytes_bounds:
  "0 \<le> foldr (\<lambda>b acc. uint b + 256 * acc) (bs :: byte list) 0
   \<and> foldr (\<lambda>b acc. uint b + 256 * acc) bs 0 < 2 ^ (8 * length bs)"
proof (induction bs)
  case Nil
  then show ?case by simp
next
  case (Cons b bs)
  have "0 \<le> uint b" "uint b < 256" using uint_lt2p[of b] by simp_all
  with Cons show ?case by (simp add: power_add) 
qed

lemma from_bytes_le_signed_range:
  assumes "bs \<noteq> []"
  shows "- (2 ^ (8 * length bs - 1)) \<le> from_bytes_le_signed bs"
    and "from_bytes_le_signed bs < 2 ^ (8 * length bs - 1)"
proof -
  define u where "u = foldr (\<lambda>b acc. uint b + 256 * acc) bs 0"
  have u: "0 \<le> u" "u < 2 ^ (8 * length bs)" using le_bytes_bounds[of bs] by (simp_all add: u_def)
  have n: "0 < 8 * length bs" using assms by simp
  then have w: "(2::int) ^ (8 * length bs) = 2 * 2 ^ (8 * length bs - 1)"
    by (metis power_minus_mult mult.commute)
  show "- (2 ^ (8 * length bs - 1)) \<le> from_bytes_le_signed bs"
    using u w by (simp add: from_bytes_le_signed_def u_def[symmetric] Let_def)
  show "from_bytes_le_signed bs < 2 ^ (8 * length bs - 1)"
    using u w by (simp add: from_bytes_le_signed_def u_def[symmetric] Let_def)
qed

lemma chunks_props:
  "c \<in> set (chunks k xs) \<Longrightarrow> c \<noteq> [] \<and> length c \<le> k"
proof (induction k xs rule: chunks.induct)
  case (1 k xs)
  then show ?case
    by (subst (asm) (2) chunks.simps) (auto split: if_splits)
qed

lemma wide_sample_range:
  assumes "3 \<le> width" "c \<noteq> []" "length c \<le> width"
  shows "in_s16 (from_bytes_le_signed c div 2 ^ (8 * (width - 2)))"
proof -
  define v where "v = from_bytes_le_signed c"
  define k where "k = 8 * (width - 2)"
  have le: "8 * length c - 1 \<le> k + 15" using assms by (simp add: k_def)
  have pw: "(2::int) ^ (8 * length c - 1) \<le> 2 ^ (k + 15)"
    using le by (intro power_increasing) simp_all
  have p: "(2::int) ^ (k + 15) = 32768 * 2 ^ k" by (simp add: power_add)
  have v: "(- 32768) * 2 ^ k \<le> v" "v < 32768 * 2 ^ k"
    using from_bytes_le_signed_range[OF assms(2)] pw unfolding v_def[symmetric] p by linarith+
  have dv: "v div 2 ^ k = \<lfloor>(of_int v :: rat) / of_int (2 ^ k)\<rfloor>"
    by (simp only: floor_divide_of_int_eq)
  have rv: "(- 32768) * of_int (2 ^ k) \<le> (of_int v :: rat)" "(of_int v :: rat) < 32768 * of_int (2 ^ k)"
    using v by (simp_all flip: of_int_mult of_int_numeral of_int_minus only: of_int_le_iff of_int_less_iff)
  have pos: "(0::rat) < of_int (2 ^ k)" by simp
  have "- 32768 \<le> v div 2 ^ k"
    unfolding dv le_floor_iff using rv(1) pos by (simp add: pos_le_divide_eq)
  moreover have "v div 2 ^ k < 32768"
    unfolding dv floor_less_iff using rv(2) pos by (simp add: pos_divide_less_eq)
  ultimately show ?thesis by (simp add: in_s16_def v_def k_def)
qed

lemma extract_samples_range:
  assumes "extract_samples width raw = Inr samples"
  shows "\<forall>s \<in> set samples. in_s16 s"
proof -
  consider "width = 2" | "width = 1" | "width = 0" | "3 \<le> width" by linarith
  then show ?thesis
  proof cases
    case 1
    then show ?thesis using assms unpack_h_range by (simp add: extract_samples_def)
  next
    case 2
    then show ?thesis using assms u8_sample_range by (auto simp: extract_samples_def simp del: One_nat_def)
  next
    case 3
    then show ?thesis using assms by (simp add: extract_samples_def)
  next
    case 4
    then have "samples = map (\<lambda>c. from_bytes_le_signed c div 2 ^ (8 * (width - 2))) (chunks width raw)"
      using assms by (simp add: extract_samples_def)
    moreover have "in_s16 (from_bytes_le_signed c div 2 ^ (8 * (width - 2)))"
      if "c \<in> set (chunks width raw)" for c
      using chunks_props[OF that] 4 by (intro wide_sample_range) simp_all
    ultimately show ?thesis by simp
  qed
qed

lemma avg_range: "in_s16 l \<Longrightarrow> in_s16 r \<Longrightarrow> in_s16 ((l + r) div 2)"
  unfolding in_s16_def by linarith

lemma downmix_range:
  "\<forall>s \<in> set samples. in_s16 s \<Longrightarrow> \<forall>s \<in> set (downmix samples). in_s16 s"
  by (induction samples rule: downmix.induct) (simp_all add: avg_range)

lemma map_by_index: "map f xs = map (\<lambda>k. f (xs ! k)) [0..<length xs]"
proof -
  have "map f xs = map f (map (nth xs) [0..<length xs])" by (simp only: map_nth)
  then show ?thesis by (simp only: map_map comp_def)
qed

lemma upt_0_Suc: "[0..<Suc n] = 0 # map Suc [0..<n]"
proof -
  have "[0..<Suc n] = 0 # [Suc 0..<Suc n]" by (rule upt_conv_Cons) simp
  then show ?thesis by (simp only: map_Suc_upt)
qed

lemma unpack_h_nth:
  "even (length bs) \<Longrightarrow>
   unpack_h bs = Inr (map (\<lambda>k. s16_le (bs ! (2 * k)) (bs ! (2 * k + 1))) [0..<length bs div 2])"
proof (induction bs rule: unpack_h.induct)
  case 1
  then show ?case by simp
next
  case (2 b)
  then show ?case by simp
next
  case (3 lo hi bs)
  then have ev: "even (length bs)" by simp
  have "length (lo # hi # bs) div 2 = Suc (length bs div 2)" by simp
  then have "[0..<length (lo # hi # bs) div 2] = 0 # map Suc [0..<length bs div 2]"
    by (simp only: upt_0_Suc)
  then show ?case using 3(1)[OF ev] by (simp add: comp_def)
qed

lemma chunk_count:
  assumes "0 < k" "xs \<noteq> []"
  shows "(length xs + k - 1) div k = Suc ((length (drop k xs) + k - 1) div k)"
proof (cases "k \<le> length xs")
  case True
  have e: "length xs + k - 1 = (length xs - 1) + k" using assms by (cases xs) simp_all
  have "(length xs - 1 + k) div k = Suc ((length xs - 1) div k)"
    using assms(1) by simp
  then have a: "(length xs + k - 1) div k = Suc ((length xs - 1) div k)"
    by (simp only: e)
  have b: "length (drop k xs) + k - 1 = length xs - 1" using True assms(1) by simp
  show ?thesis by (simp only: a b)
next
  case False
  have n: "0 < length xs" using assms(2) by simp
  have "(length xs + k - 1) div k = 1"
  proof -
    have "k \<le> length xs + k - 1" using n by linarith
    moreover have "length xs + k - 1 < 2 * k" using False by linarith
    ultimately show ?thesis
      by (intro div_nat_eqI) simp_all
  qed
  moreover have "(length (drop k xs) + k - 1) div k = 0" using False assms(1) by simp
  ultimately show ?thesis by simp
qed

lemma chunks_nth:
  "0 < k \<Longrightarrow>
   chunks k xs = map (\<lambda>i. take k (drop (i * k) xs)) [0..<(length xs + k - 1) div k]"
proof (induction k xs rule: chunks.induct)
  case (1 k xs)
  show ?case
  proof (cases "xs = []")
    case True
    then show ?thesis using 1(2) by (simp add: chunks.simps)
  next
    case False
    have ih: "chunks k (drop k xs) =
        map (\<lambda>i. take k (drop (i * k) (drop k xs))) [0..<(length (drop k xs) + k - 1) div k]"
      using 1 False by simp
    have c: "chunks k xs = take k xs # chunks k (drop k xs)"
      using False 1(2) by (subst chunks.simps) simp
    have u: "[0..<(length xs + k - 1) div k] = 0 # map Suc [0..<(length (drop k xs) + k - 1) div k]"
      by (simp only: chunk_count[OF 1(2) False] upt_0_Suc)
    show ?thesis
      unfolding c ih u by (simp add: comp_def add.commute)
  qed
qed

lemma extract_samples_pcm:
  assumes "0 < width" "width = 2 \<longrightarrow> even (length raw)"
  shows "extract_samples width raw = Inr (pcm_samples width raw)"
proof -
  consider "width = 1" | "width = 2" | "3 \<le> width" using assms(1) by linarith
  then show ?thesis
  proof cases
    case 1
    have "map (\<lambda>b. (uint b - 128) * 256) raw = map (\<lambda>k. (uint (raw ! k) - 128) * 256) [0..<length raw]"
      by (rule map_by_index)
    then show ?thesis using 1 by (simp add: extract_samples_def pcm_samples_def pcm16_def)
  next
    case 2
    then have "even (length raw)" using assms(2) by simp
    then show ?thesis
      using 2 unpack_h_nth[of raw] by (simp add: extract_samples_def pcm_samples_def pcm16_def)
  next
    case 3
    then have w: "width \<noteq> 2" "width \<noteq> 1" "width \<noteq> 0" by simp_all
    show ?thesis
      using w chunks_nth[OF assms(1), of raw]
      by (simp add: extract_samples_def pcm_samples_def pcm16_def comp_def)
  qed
qed

section \<open>Facts about the encoder\<close>

lemma clamp_Fin: "clamp (Fin q) = Fin (max (- 1) (min 1 q))"
  by (simp add: clamp_def py_min_def py_max_def max_def min_def)

lemma clamp_bounded: "\<exists>c. clamp s = Fin c \<and> \<bar>c\<bar> \<le> 1"
  by (cases s) (auto simp: clamp_def py_min_def py_max_def)

lemma b64_32767: "b64_round 32767 = Fin 32767"
  by (rule b64_round_exact[where m = 32767 and e = 0]) (simp_all add: pow2_powi)

lemma trunc_zero_bound:
  assumes "\<bar>r\<bar> \<le> of_int B"
  shows "\<bar>trunc_zero r\<bar> \<le> B"
proof (cases "0 \<le> r")
  case True
  then have "0 \<le> \<lfloor>r\<rfloor>" by simp
  moreover have "\<lfloor>r\<rfloor> \<le> B" using assms True by (simp add: floor_le_iff abs_le_iff)
  ultimately show ?thesis using True by (simp add: trunc_zero_def)
next
  case False
  then have "\<lceil>r\<rceil> \<le> 0" by (simp add: ceiling_le_iff)
  moreover have "- B \<le> \<lceil>r\<rceil>" using assms by (simp add: le_ceiling_iff abs_le_iff)
  ultimately show ?thesis using False by (simp add: trunc_zero_def)
qed

lemma quantize_total: "quantize s = Inr (quantized s) \<and> in_s16 (quantized s)"
proof -
  obtain c where c: "clamp s = Fin c" "\<bar>c\<bar> \<le> 1" using clamp_bounded by blast
  have "\<bar>c * 32767\<bar> \<le> 32767" using c(2) by (simp add: abs_mult)
  then obtain r where r: "b64_round (c * 32767) = Fin r" "\<bar>r\<bar> \<le> 32767"
    using b64_round_bound[OF b64_32767] by blast
  have f: "float_of_int 32767 = Inr (Fin 32767)" by (rule float_of_int_small[of 32767, simplified])
  have q: "quantized s = trunc_zero r" by (simp add: quantized_def c r)
  have "\<bar>trunc_zero r\<bar> \<le> 32767" using r(2) trunc_zero_bound[of r 32767] by simp
  then have "in_s16 (trunc_zero r)" by (simp add: in_s16_def abs_le_iff)
  moreover have "quantize s = Inr (trunc_zero r)"
    by (simp add: quantize_def float_mul_int_def f c r float_to_int_def)
  ultimately show ?thesis by (simp add: q)
qed

lemma pack_loop:
  "for_loop samples
     (\<lambda>s packed. ebind (quantize s) (\<lambda>v. ebind (pack_h v) (\<lambda>b. Inr (packed @ b)))) acc
   = Inr (acc @ concat (map (\<lambda>s. le16 (quantized s)) samples))"
  by (induction samples arbitrary: acc) (simp_all add: quantize_total pack_h_def)

lemma pack_samples_total:
  "pack_samples samples = Inr (concat (map (\<lambda>s. le16 (quantized s)) samples))"
  by (simp add: pack_samples_def pack_loop)



lemma packed_length: "length (concat (map (\<lambda>s. le16 (quantized s)) samples)) = 2 * length samples"
  by (induction samples) (simp_all add: le16_def)


lemma wave_write_in_range:
  assumes "0 < rate" "rate < 2 ^ 31" "int (length samples) < 2 ^ 31 - 18"
  shows "samples_to_wav wave_write samples rate =
    Inr (riff_header 1 2 rate (2 * length samples)
         @ concat (map (\<lambda>s. le16 (quantized s)) samples))"
proof -
  have a: "wave_accepts 1 2 rate" using assms(1) by (simp add: wave_accepts_def)
  have f: "header_fits 1 2 rate (2 * length samples)"
    using assms by (simp add: header_fits_def)
  show ?thesis
    using a f by (simp add: samples_to_wav_def wave_write_def pack_samples_total packed_length)
qed

lemma wave_write_bad_rate:
  assumes "rate \<le> 0"
  shows "samples_to_wav wave_write samples rate = Inl WaveError"
  using assms by (simp add: samples_to_wav_def wave_write_def wave_accepts_def)

lemma wave_write_large_rate:
  assumes "2 ^ 31 \<le> rate"
  shows "samples_to_wav wave_write samples rate = Inl StructError"
proof -
  have a: "wave_accepts 1 2 rate" using assms by (simp add: wave_accepts_def)
  have f: "\<not> header_fits 1 2 rate (2 * length samples)"
    using assms by (simp add: header_fits_def)
  show ?thesis
    using a f by (simp add: samples_to_wav_def wave_write_def pack_samples_total packed_length)
qed






section \<open>Facts about the noise pass\<close>

lemma py_range_iff: "i \<in> set (py_range a b) \<longleftrightarrow> a \<le> i \<and> i < b"
proof -
  have "i \<in> set (py_range a b) \<longleftrightarrow> (\<exists>k < nat (b - a). i = a + int k)"
    by (auto simp: py_range_def)
  also have "\<dots> \<longleftrightarrow> a \<le> i \<and> i < b"
  proof
    assume "\<exists>k < nat (b - a). i = a + int k"
    then show "a \<le> i \<and> i < b" by auto
  next
    assume h: "a \<le> i \<and> i < b"
    then have "nat (i - a) < nat (b - a)" "i = a + int (nat (i - a))" by simp_all
    then show "\<exists>k < nat (b - a). i = a + int k" by blast
  qed
  finally show ?thesis .
qed

lemma for_loop_inv:
  assumes "P s"
    and "\<And>i s. i \<in> set js \<Longrightarrow> P s \<Longrightarrow> \<exists>s'. body i s = Inr s' \<and> P s'"
  shows "\<exists>s'. for_loop js body s = Inr s' \<and> P s'"
  using assms
proof (induction js arbitrary: s)
  case Nil
  then show ?case by simp
next
  case (Cons j js)
  obtain s1 where s1: "body j s = Inr s1" "P s1" using Cons.prems by fastforce
  have "\<exists>s'. for_loop js body s1 = Inr s' \<and> P s'"
    using s1(2) Cons.prems(2) by (intro Cons.IH) simp_all
  then show ?case using s1(1) by simp
qed

lemma py_getitem_in: "0 \<le> i \<Longrightarrow> i < int (length xs) \<Longrightarrow> py_getitem xs i = Inr (xs ! nat i)"
  by (simp add: py_getitem_def py_index_def)

lemma py_setitem_in:
  "0 \<le> i \<Longrightarrow> i < int (length xs) \<Longrightarrow> py_setitem xs i v = Inr (xs[nat i := v])"
  by (simp add: py_setitem_def py_index_def)

lemma add_uniform_at_in:
  assumes "0 \<le> i" "i < int (length xs)"
  shows "add_uniform_at vol i (xs, g) =
    Inr (xs[nat i := fadd (xs ! nat i) (fst (uniform (fneg vol) vol g))], snd (uniform (fneg vol) vol g))"
  using assms by (simp add: add_uniform_at_def py_getitem_in py_setitem_in split: prod.splits)

lemma add_uniform_loop:
  assumes "\<forall>i \<in> set js. 0 \<le> i \<and> i < int (length xs)"
  shows "\<exists>st. for_loop js (add_uniform_at vol) (xs, g) = Inr st \<and> frame_of xs js st"
proof (rule for_loop_inv)
  show "frame_of xs js (xs, g)" by (simp add: frame_of_def)
next
  fix i st
  assume i: "i \<in> set js" and st: "frame_of xs js st"
  obtain ys h where yh: "st = (ys, h)" by (cases st)
  have len: "length ys = length xs" using st by (simp add: frame_of_def yh)
  have ir: "0 \<le> i" "i < int (length ys)" using assms i len by auto
  have "frame_of xs js
      (ys[nat i := fadd (ys ! nat i) (fst (uniform (fneg vol) vol h))], snd (uniform (fneg vol) vol h))"
    using st i ir by (auto simp: frame_of_def yh nth_list_update)
  then show "\<exists>s'. add_uniform_at vol i st = Inr s' \<and> frame_of xs js s'"
    using add_uniform_at_in[OF ir] by (simp add: yh)
qed

lemma randint_range:
  assumes "a \<le> b"
  shows "\<exists>v g'. randint a b g = Inr (v, g') \<and> a \<le> v \<and> v \<le> b"
proof -
  define k where "k = int (fst (next_raw g))"
  have w: "0 < b - a + 1" using assms by simp
  have "0 \<le> k mod (b - a + 1)" "k mod (b - a + 1) < b - a + 1"
    using w by (rule pos_mod_sign, rule pos_mod_bound)
  then have "a \<le> a + k mod (b - a + 1)" "a + k mod (b - a + 1) \<le> b" by linarith+
  then show ?thesis using assms by (auto simp: randint_def k_def split: prod.splits)
qed

lemma crackle_burst_frame:
  assumes "randint 0 (max 0 (int (length samples) - 500)) g = Inr (start, g1)"
    and "randint 80 300 g1 = Inr (len, g2)"
  shows "\<exists>samples' g'. crackle_burst (int (length samples)) (samples, g) = Inr (samples', g')
    \<and> length samples' = length samples
    \<and> (\<forall>j < length samples.
          int j < start \<or> min (start + len) (int (length samples)) \<le> int j
          \<longrightarrow> samples' ! j = samples ! j)"
proof -
  define n where "n = int (length samples)"
  obtain v g' where "randint 0 (max 0 (n - 500)) g = Inr (v, g')" "0 \<le> v"
    using randint_range[of 0 "max 0 (n - 500)" g] by auto
  then have s0: "0 \<le> start" using assms(1) by (simp add: n_def)
  obtain vol g3 where u: "uniform (b64_round (3 / 100)) (b64_round (8 / 100)) g2 = (vol, g3)"
    by (cases "uniform (b64_round (3 / 100)) (b64_round (8 / 100)) g2")
  define js where "js = py_range start (min (start + len) n)"
  have "\<forall>i \<in> set js. 0 \<le> i \<and> i < int (length samples)"
    using s0 by (auto simp: js_def py_range_iff n_def)
  then obtain st where st: "for_loop js (add_uniform_at vol) (samples, g3) = Inr st"
      "frame_of samples js st"
    using add_uniform_loop by blast
  have "crackle_burst n (samples, g) = Inr st"
    using assms u st(1) by (simp add: crackle_burst_def n_def[symmetric] js_def)
  moreover have "length (fst st) = length samples" using st(2) by (simp add: frame_of_def)
  moreover have "\<forall>j < length samples. int j < start \<or> min (start + len) n \<le> int j
      \<longrightarrow> fst st ! j = samples ! j"
    using st(2) by (auto simp: frame_of_def js_def py_range_iff)
  ultimately show ?thesis unfolding n_def by (cases st) auto
qed

lemma fin_leE:
  assumes "fin_le x k"
  obtains r where "x = Fin r" "\<bar>r\<bar> \<le> pow2 k"
  using assms by (cases x) (simp_all add: fin_le_def)

lemma fin_le_Fin [simp]: "fin_le (Fin r) k \<longleftrightarrow> \<bar>r\<bar> \<le> pow2 k"
  by (simp add: fin_le_def)

lemma fin_le_mono: "fin_le x j \<Longrightarrow> j \<le> k \<Longrightarrow> fin_le x k"
  using pow2_mono[of j k] by (cases x) (simp_all add: fin_le_def)

lemma b64_pow2:
  assumes "- 1074 \<le> k" "k < 1024"
  shows "b64_round (pow2 k) = Fin (pow2 k)"
  using assms by (intro b64_round_exact[where m = 1 and e = k]) (simp_all add: pow2_less_iff)

lemma round_fin_le:
  assumes "\<bar>q\<bar> \<le> pow2 k" "- 1074 \<le> k" "k < 1024"
  shows "fin_le (b64_round q) k"
  using b64_round_bound[OF b64_pow2[OF assms(2,3)] assms(1)] by auto

lemma fneg_fin_le: "fin_le x k \<Longrightarrow> fin_le (fneg x) k"
  by (cases x) (simp_all add: fin_le_def)

lemma fmul_fin_le:
  assumes "fin_le x j" "fin_le y k" "- 1074 \<le> j + k" "j + k < 1024"
  shows "fin_le (fmul x y) (j + k)"
proof -
  obtain a b where ab: "x = Fin a" "\<bar>a\<bar> \<le> pow2 j" "y = Fin b" "\<bar>b\<bar> \<le> pow2 k"
    using assms(1,2) by (elim fin_leE) blast
  have "\<bar>a * b\<bar> \<le> pow2 j * pow2 k"
    unfolding abs_mult using ab(2,4) by (intro mult_mono) simp_all
  then have "\<bar>a * b\<bar> \<le> pow2 (j + k)" by (simp add: pow2_add)
  then show ?thesis using assms(3,4) by (simp add: ab round_fin_le)
qed

lemma fadd_fin_le:
  assumes "fin_le x k" "fin_le y k" "- 1074 \<le> k + 1" "k + 1 < 1024"
  shows "fin_le (fadd x y) (k + 1)"
proof -
  obtain a b where ab: "x = Fin a" "\<bar>a\<bar> \<le> pow2 k" "y = Fin b" "\<bar>b\<bar> \<le> pow2 k"
    using assms(1,2) by (elim fin_leE) blast
  have "\<bar>a + b\<bar> \<le> pow2 k + pow2 k" using ab(2,4) by linarith
  also have "\<dots> = pow2 k * pow2 1" by (simp add: pow2_def)
  also have "\<dots> = pow2 (k + 1)" by (simp only: pow2_add)
  finally show ?thesis using assms(3,4) by (simp add: ab round_fin_le)
qed

lemma fsub_fin_le:
  assumes "fin_le x k" "fin_le y k" "- 1074 \<le> k + 1" "k + 1 < 1024"
  shows "fin_le (fsub x y) (k + 1)"
  unfolding fsub_def using assms by (intro fadd_fin_le fneg_fin_le)

lemma random_unit_range:
  "\<exists>k. fst (random_unit g) = Fin (of_int k / 2 ^ 53) \<and> 0 \<le> k \<and> k \<le> 2 ^ 53 - 1"
proof -
  define k where "k = int (fst (next_raw g)) mod 2 ^ 53"
  have "0 \<le> k" "k < 2 ^ 53" unfolding k_def by (rule pos_mod_sign, simp, rule pos_mod_bound, simp)
  then have "0 \<le> k \<and> k \<le> 2 ^ 53 - 1" by simp
  moreover have "fst (random_unit g) = Fin (of_int k / 2 ^ 53)"
    by (simp add: random_unit_def k_def split: prod.splits)
  ultimately show ?thesis by blast
qed

lemma random_unit_fin_le: "fin_le (fst (random_unit g)) 0"
proof -
  obtain k where k: "fst (random_unit g) = Fin (of_int k / 2 ^ 53)" "0 \<le> k" "k \<le> 2 ^ 53 - 1"
    using random_unit_range by blast
  have "(of_int k :: rat) \<le> of_int (2 ^ 53 - 1)" using k(3) by (simp only: of_int_le_iff)
  then have "(of_int k :: rat) \<le> 2 ^ 53" by simp
  then have "(of_int k :: rat) / 2 ^ 53 \<le> 1" by (simp add: divide_le_eq)
  moreover have "0 \<le> (of_int k :: rat) / 2 ^ 53" using k(2) by simp
  ultimately show ?thesis by (simp add: k(1) pow2_def)
qed

lemma uniform_fin_le:
  assumes "fin_le a k" "fin_le b k" "- 1074 \<le> k" "k + 2 < 1024"
  shows "fin_le (fst (uniform a b g)) (k + 2)"
proof -
  have d: "fin_le (fsub b a) (k + 1)" using assms by (intro fsub_fin_le) simp_all
  have "fin_le (fmul (fsub b a) (fst (random_unit g))) (k + 1 + 0)"
    using d random_unit_fin_le assms by (intro fmul_fin_le) simp_all
  then have "fin_le (fmul (fsub b a) (fst (random_unit g))) (k + 1)" by simp
  moreover have "fin_le a (k + 1)" using assms(1) by (rule fin_le_mono) simp
  ultimately have "fin_le (fadd a (fmul (fsub b a) (fst (random_unit g)))) (k + 1 + 1)"
    using assms by (intro fadd_fin_le) simp_all
  then show ?thesis by (cases "random_unit g") (simp add: uniform_def add.commute)
qed

lemma int_truediv_fin_le:
  assumes "sample_rate \<noteq> 0" "0 \<le> i" "i \<le> 2 ^ 63"
  shows "\<exists>t. int_truediv i sample_rate = Inr t \<and> fin_le t 63"
proof -
  have "(1::int) \<le> \<bar>sample_rate\<bar>" using assms(1) by simp
  then have "(of_int 1 :: rat) \<le> of_int \<bar>sample_rate\<bar>" by (simp only: of_int_le_iff)
  then have s1: "1 \<le> \<bar>(of_int sample_rate :: rat)\<bar>" by simp
  have "\<bar>(of_int i :: rat)\<bar> / \<bar>of_int sample_rate\<bar> \<le> \<bar>of_int i\<bar> / 1"
    using s1 by (intro frac_le) simp_all
  then have "\<bar>(of_int i :: rat) / of_int sample_rate\<bar> \<le> \<bar>of_int i\<bar>"
    by (simp only: abs_divide div_by_1)
  also have "\<dots> \<le> of_int (2 ^ 63)" using assms(2,3) by (simp only: of_int_le_iff flip: of_int_abs)
  also have "\<dots> = pow2 63" by (simp add: pow2_powi)
  finally have "fin_le (b64_round (of_int i / of_int sample_rate)) 63"
    by (intro round_fin_le) simp_all
  then show ?thesis using assms(1)
    by (auto simp: int_truediv_def elim!: fin_leE)
qed

lemma math_pi2_fin_le: "fin_le (fmul (Fin 2) math_pi) 3"
proof -
  have "fin_le (Fin 2) 1" by (simp add: pow2_def)
  moreover have "fin_le math_pi 2" by (simp add: math_pi_def pow2_def)
  ultimately have "fin_le (fmul (Fin 2) math_pi) (1 + 2)" by (intro fmul_fin_le) simp_all
  then show ?thesis by simp
qed

lemma sin_arg_finite:
  assumes "fin_le freq 9" "fin_le t 63"
  shows "\<exists>s. py_sin sin_impl (fmul (fmul (fmul (Fin 2) math_pi) freq) t) = Inr s"
proof -
  have a: "fin_le (fmul (fmul (Fin 2) math_pi) freq) (3 + 9)"
    by (rule fmul_fin_le[OF math_pi2_fin_le assms(1)]) simp_all
  have "fin_le (fmul (fmul (fmul (Fin 2) math_pi) freq) t) (3 + 9 + 63)"
    by (rule fmul_fin_le[OF a assms(2)]) simp_all
  then show ?thesis by (auto simp: py_sin_def elim!: fin_leE)
qed

lemma hum_at_ok:
  assumes "sample_rate \<noteq> 0" "0 \<le> i" "i < int (length xs)" "int (length xs) \<le> 2 ^ 63"
    and "fin_le freq 9"
  shows "\<exists>ys. hum_at sin_impl freq vol sample_rate i (xs, g) = Inr (ys, g) \<and> length ys = length xs"
proof -
  have "i \<le> 2 ^ 63" using assms(3,4) by linarith
  then obtain t where t: "int_truediv i sample_rate = Inr t" "fin_le t 63"
    using int_truediv_fin_le[OF assms(1,2)] by blast
  obtain s where s: "py_sin sin_impl (fmul (fmul (fmul (Fin 2) math_pi) freq) t) = Inr s"
    using sin_arg_finite[OF assms(5) t(2)] by blast
  show ?thesis
    by (simp add: hum_at_def t(1) s py_getitem_in[OF assms(2,3)] py_setitem_in[OF assms(2,3)])
qed

lemma warble_at_ok:
  assumes "sample_rate \<noteq> 0" "0 \<le> i" "i < int (length xs)" "int (length xs) \<le> 2 ^ 63"
    and "fin_le freq 9"
  shows "\<exists>ys. warble_at sin_impl freq depth sample_rate i (xs, g) = Inr (ys, g) \<and> length ys = length xs"
proof -
  have "i \<le> 2 ^ 63" using assms(3,4) by linarith
  then obtain t where t: "int_truediv i sample_rate = Inr t" "fin_le t 63"
    using int_truediv_fin_le[OF assms(1,2)] by blast
  obtain s where s: "py_sin sin_impl (fmul (fmul (fmul (Fin 2) math_pi) freq) t) = Inr s"
    using sin_arg_finite[OF assms(5) t(2)] by blast
  show ?thesis
    by (simp add: warble_at_def t(1) s py_getitem_in[OF assms(2,3)] py_setitem_in[OF assms(2,3)])
qed

lemma white_noise_ok:
  "\<exists>st'. white_noise (int (length xs)) (xs, g) = Inr st' \<and> same_length (length xs) st'"
proof -
  have "\<forall>i \<in> set (py_range 0 (int (length xs))). 0 \<le> i \<and> i < int (length xs)"
    by (simp add: py_range_iff)
  then have "\<exists>st. for_loop (py_range 0 (int (length xs))) (add_uniform_at vol) (xs, g1) = Inr st
      \<and> same_length (length xs) st" for vol g1
    using add_uniform_loop[of "py_range 0 (int (length xs))" xs vol g1]
    by (auto simp: frame_of_def same_length_def)
  then show ?thesis by (simp only: white_noise_def prod.case split_beta fst_conv snd_conv)
qed

lemma hum_ok:
  assumes "sample_rate \<noteq> 0" "int (length xs) \<le> 2 ^ 63"
  shows "\<exists>st'. hum sin_impl sample_rate (int (length xs)) (xs, g) = Inr st'
    \<and> same_length (length xs) st'"
proof -
  define freq where "freq = fst (uniform (Fin 45) (Fin 65) g)"
  have "fin_le freq (7 + 2)"
    unfolding freq_def by (intro uniform_fin_le) (simp_all add: pow2_def)
  then have f: "fin_le freq 9" by simp
  have "\<exists>st'. for_loop (py_range 0 (int (length xs))) (hum_at sin_impl freq vol sample_rate) (xs, g2)
      = Inr st' \<and> same_length (length xs) st'" for vol g2
  proof (rule for_loop_inv)
    show "same_length (length xs) (xs, g2)" by (simp add: same_length_def)
  next
    fix i st
    assume i: "i \<in> set (py_range 0 (int (length xs)))" and st: "same_length (length xs) st"
    obtain ys h where yh: "st = (ys, h)" by (cases st)
    have len: "length ys = length xs" using st by (simp add: same_length_def yh)
    have "\<exists>zs. hum_at sin_impl freq vol sample_rate i (ys, h) = Inr (zs, h) \<and> length zs = length ys"
      using i assms f len by (intro hum_at_ok) (simp_all add: py_range_iff)
    then show "\<exists>s'. hum_at sin_impl freq vol sample_rate i st = Inr s' \<and> same_length (length xs) s'"
      by (auto simp: yh len same_length_def)
  qed
  then show ?thesis by (simp only: hum_def prod.case split_beta fst_conv snd_conv freq_def)
qed

lemma warble_ok:
  assumes "sample_rate \<noteq> 0" "int (length xs) \<le> 2 ^ 63"
  shows "\<exists>st'. warble sin_impl sample_rate (int (length xs)) (xs, g) = Inr st'
    \<and> same_length (length xs) st'"
proof -
  define freq where "freq = fst (uniform (Fin 2) (Fin 4) g)"
  have "fin_le freq (7 + 2)"
    unfolding freq_def by (intro uniform_fin_le) (simp_all add: pow2_def)
  then have f: "fin_le freq 9" by simp
  have "\<exists>st'. for_loop (py_range 0 (int (length xs))) (warble_at sin_impl freq depth sample_rate) (xs, g2)
      = Inr st' \<and> same_length (length xs) st'" for depth g2
  proof (rule for_loop_inv)
    show "same_length (length xs) (xs, g2)" by (simp add: same_length_def)
  next
    fix i st
    assume i: "i \<in> set (py_range 0 (int (length xs)))" and st: "same_length (length xs) st"
    obtain ys h where yh: "st = (ys, h)" by (cases st)
    have len: "length ys = length xs" using st by (simp add: same_length_def yh)
    have "\<exists>zs. warble_at sin_impl freq depth sample_rate i (ys, h) = Inr (zs, h) \<and> length zs = length ys"
      using i assms f len by (intro warble_at_ok) (simp_all add: py_range_iff)
    then show "\<exists>s'. warble_at sin_impl freq depth sample_rate i st = Inr s' \<and> same_length (length xs) s'"
      by (auto simp: yh len same_length_def)
  qed
  then show ?thesis by (simp only: warble_def prod.case split_beta fst_conv snd_conv freq_def)
qed

lemma crackle_burst_ok:
  assumes "length xs = n"
  shows "\<exists>st'. crackle_burst (int n) (xs, g) = Inr st' \<and> same_length n st'"
proof -
  obtain start g1 where r1: "randint 0 (max 0 (int (length xs) - 500)) g = Inr (start, g1)"
    using randint_range[of 0 "max 0 (int (length xs) - 500)" g] by auto
  obtain len g2 where r2: "randint 80 300 g1 = Inr (len, g2)"
    using randint_range[of 80 300 g1] by auto
  show ?thesis
    using crackle_burst_frame[OF r1 r2] assms by (auto simp: same_length_def)
qed

lemma crackle_ok:
  "\<exists>st'. crackle (int (length xs)) (xs, g) = Inr st' \<and> same_length (length xs) st'"
proof -
  obtain bursts g1 where r: "randint 3 8 g = Inr (bursts, g1)"
    using randint_range[of 3 8 g] by auto
  have "\<exists>st'. for_loop (py_range 0 bursts) (\<lambda>k. crackle_burst (int (length xs))) (xs, g1)
      = Inr st' \<and> same_length (length xs) st'"
  proof (rule for_loop_inv)
    show "same_length (length xs) (xs, g1)" by (simp add: same_length_def)
  next
    fix i st
    assume st: "same_length (length xs) st"
    obtain ys h where yh: "st = (ys, h)" by (cases st)
    have len: "length ys = length xs" using st by (simp add: same_length_def yh)
    show "\<exists>s'. crackle_burst (int (length xs)) st = Inr s' \<and> same_length (length xs) s'"
      using crackle_burst_ok[OF len, of h] by (simp add: yh)
  qed
  then show ?thesis by (simp add: crackle_def r)
qed

lemma add_noise_total:
  assumes "sample_rate \<noteq> 0" and "int (length samples) \<le> 2 ^ 63"
  shows "\<exists>samples' g'. add_noise sin_impl samples sample_rate g = Inr (samples', g')
    \<and> length samples' = length samples"
proof -
  define n where "n = int (length samples)"
  obtain s1 g1 where 1: "white_noise n (samples, g) = Inr (s1, g1)" "length s1 = length samples"
    using white_noise_ok[of samples g] by (auto simp: same_length_def n_def)
  obtain s2 g2 where 2: "hum sin_impl sample_rate n (s1, g1) = Inr (s2, g2)" "length s2 = length s1"
    using hum_ok[of sample_rate s1 sin_impl g1] assms 1(2) by (auto simp: same_length_def n_def)
  obtain s3 g3 where 3: "crackle n (s2, g2) = Inr (s3, g3)" "length s3 = length s2"
    using crackle_ok[of s2 g2] 1(2) 2(2) by (auto simp: same_length_def n_def)
  obtain s4 g4 where 4: "warble sin_impl sample_rate n (s3, g3) = Inr (s4, g4)" "length s4 = length s3"
    using warble_ok[of sample_rate s3 sin_impl g3] assms 1(2) 2(2) 3(2)
    by (auto simp: same_length_def n_def)
  show ?thesis
    using 1 2 3 4 by (simp add: add_noise_def n_def[symmetric])
qed

section \<open>Facts about the resampler\<close>

lemma pow2_Suc: "pow2 (e + 1) = 2 * pow2 e"
proof -
  have "pow2 (e + 1) = pow2 e * pow2 1" by (rule pow2_add)
  also have "pow2 1 = 2" by (simp add: pow2_def)
  finally show ?thesis by simp
qed

lemma b64_round_idem:
  assumes "b64_round q = Fin r"
  shows "b64_round r = Fin r"
proof (cases "q = 0")
  case True
  then show ?thesis using assms by (simp add: b64_round_def)
next
  case False
  define e where "e = b64_exp q"
  define M where "M = round_half_even (q / pow2 e)"
  have ov: "\<not> pow2 1024 \<le> \<bar>of_int M * pow2 e\<bar>" and r: "r = of_int M * pow2 e"
    using assms False by (simp_all add: b64_round_eq e_def M_def Let_def split: if_splits)
  have fin: "\<bar>r\<bar> < pow2 1024" using ov r by simp
  have e: "- 1074 \<le> e" by (simp add: e_def b64_exp_def)
  have Mb: "\<bar>M\<bar> \<le> 2 ^ 53" using b64_mantissa_bounds(1)[OF False] by (simp add: M_def e_def)
  show ?thesis
  proof (cases "\<bar>M\<bar> < 2 ^ 53")
    case True
    then show ?thesis using r e fin by (intro b64_round_exact[where m = M and e = e])
  next
    case False
    then have "\<bar>M\<bar> = 2 ^ 53" using Mb by simp
    then have "M = 2 ^ 52 * 2 \<or> M = - (2 ^ 52) * 2" by (simp add: abs_if split: if_splits)
    then obtain K where K: "M = K * 2" "\<bar>K\<bar> < 2 ^ 53" by auto
    have "r = of_int K * pow2 (e + 1)" by (simp add: r K pow2_Suc)
    then show ?thesis using e fin K(2) by (intro b64_round_exact[where m = K and e = "e + 1"]) simp_all
  qed
qed

lemma round_half_even_le_double: "0 \<le> y \<Longrightarrow> of_int (round_half_even y) \<le> 2 * y"
proof -
  assume y: "0 \<le> y"
  have n: "\<bar>of_int (round_half_even y) - y\<bar> \<le> 1 / 2" by (rule round_half_even_near)
  show ?thesis
  proof (cases "1 / 2 \<le> y")
    case True
    then show ?thesis using n by linarith
  next
    case False
    then have "of_int (round_half_even y) < (1 :: rat)" using n by linarith
    then have "round_half_even y < 1" by (simp only: of_int_less_1_iff)
    moreover have "0 \<le> round_half_even y" using y by (rule round_half_even_nonneg)
    ultimately have "round_half_even y = 0" by simp
    then show ?thesis using y by simp
  qed
qed

lemma b64_round_le_double:
  assumes "0 \<le> q" "b64_round q = Fin r"
  shows "r \<le> 2 * q"
proof (cases "q = 0")
  case True
  then show ?thesis using assms by (simp add: b64_round_def)
next
  case False
  define e where "e = b64_exp q"
  have r: "r = of_int (round_half_even (q / pow2 e)) * pow2 e"
    using assms False by (simp add: b64_round_eq e_def Let_def split: if_splits)
  have "of_int (round_half_even (q / pow2 e)) \<le> 2 * (q / pow2 e)"
    using assms(1) by (intro round_half_even_le_double) simp
  then have "of_int (round_half_even (q / pow2 e)) * pow2 e \<le> 2 * (q / pow2 e) * pow2 e"
    by (simp only: mult_le_cancel_right_pos[OF pow2_pos])
  then show ?thesis by (simp add: r)
qed

lemma b64_round_tiny:
  assumes "\<bar>q\<bar> < pow2 (- 1075)"
  shows "b64_round q = Fin 0"
proof (cases "q = 0")
  case True
  then show ?thesis by (simp add: b64_round_def)
next
  case False
  then have "ilog2 \<bar>q\<bar> < - 1075" using assms by (intro ilog2_le) simp_all
  then have e: "b64_exp q = - 1074" by (simp add: b64_exp_def)
  define y where "y = q / pow2 (- 1074)"
  have "pow2 (- 1075 + 1) = 2 * pow2 (- 1075)" by (rule pow2_Suc)
  then have "pow2 (- 1074) = 2 * pow2 (- 1075)" by simp
  then have "\<bar>q\<bar> < pow2 (- 1074) / 2" using assms by simp
  then have "\<bar>q\<bar> / pow2 (- 1074) < 1 / 2" by (simp add: pos_divide_less_eq)
  then have "\<bar>y\<bar> < 1 / 2" by (simp add: y_def)
  moreover have "\<bar>of_int (round_half_even y) - y\<bar> \<le> 1 / 2" by (rule round_half_even_near)
  ultimately have "\<bar>(of_int (round_half_even y) :: rat)\<bar> < 1" by linarith
  then have "(of_int \<bar>round_half_even y\<bar> :: rat) < 1" by (simp only: of_int_abs)
  then have "\<bar>round_half_even y\<bar> < 1" by (simp only: of_int_less_1_iff)
  then have "round_half_even y = 0" by simp
  then show ?thesis using False pow2_pos[of 1024]
    by (simp add: b64_round_eq e y_def[symmetric] Let_def not_le)
qed

lemma map_err_map:
  "(\<And>x. x \<in> set xs \<Longrightarrow> f x = Inr (g x)) \<Longrightarrow> map_err f xs = Inr (map g xs)"
  by (induction xs) simp_all

lemma float_of_int_below:
  assumes "0 \<le> i" "of_int i \<le> B" "b64_round B = Fin B"
  shows "\<exists>f. b64_round (of_int i) = Fin f \<and> float_of_int i = Inr (Fin f) \<and> 0 \<le> f \<and> f \<le> B"
proof -
  have "\<bar>of_int i :: rat\<bar> \<le> B" using assms(1,2) by simp
  then obtain f where f: "b64_round (of_int i) = Fin f" "\<bar>f\<bar> \<le> B"
    using b64_round_bound[OF assms(3)] by blast
  have "0 \<le> f" using b64_round_sign[OF f(1)] assms(1) by simp
  then show ?thesis using f by (simp add: float_of_int_def)
qed

lemma resample_at_ok:
  assumes r: "0 < r" and m: "b64_round m = Fin m" and mr: "m * r \<le> pow2 64"
    and i: "0 \<le> i" "of_int i \<le> m"
  shows "resample_at samples (Fin r) i = Inr (interp samples (Fin r) (nat i))"
proof -
  obtain fi where fi: "b64_round (of_int i) = Fin fi" "float_of_int i = Inr (Fin fi)" "0 \<le> fi" "fi \<le> m"
    using float_of_int_below[OF i m] by blast
  have "fi * r \<le> m * r" using fi(4) r by simp
  then have "fi * r \<le> pow2 64" using mr by linarith
  moreover have "0 \<le> fi * r" using fi(3) r by simp
  ultimately have "\<bar>fi * r\<bar> \<le> pow2 64" by linarith
  then have "fin_le (b64_round (fi * r)) 64" by (intro round_fin_le) simp_all
  then obtain s where s: "b64_round (fi * r) = Fin s" by (elim fin_leE)
  have s0: "0 \<le> s" using b64_round_sign[OF s] fi(3) r by simp
  have ss: "b64_round s = Fin s" using s by (rule b64_round_idem)
  define idx where "idx = \<lfloor>s\<rfloor>"
  have idx0: "0 \<le> idx" using s0 by (simp add: idx_def)
  have "of_int idx \<le> s" by (simp add: idx_def)
  then obtain fx where fx: "b64_round (of_int idx) = Fin fx" "float_of_int idx = Inr (Fin fx)"
    using float_of_int_below[OF idx0 _ ss] by blast
  have one: "float_of_int 1 = Inr (Fin 1)" using float_of_int_small[of 1] by simp
  have ni: "(of_nat (nat i) :: rat) = of_int i" using i(1) by simp
  have nx: "(of_nat (nat idx) :: rat) = of_int idx" using idx0 by simp
  have tz: "trunc_zero s = idx" using s0 by (simp add: trunc_zero_def idx_def)
  have c1: "idx + 1 < int (length samples) \<longleftrightarrow> nat idx + 1 < length samples"
    using idx0 by linarith
  have c2: "idx < int (length samples) \<longleftrightarrow> nat idx < length samples"
    using idx0 by linarith
  have lhs: "resample_at samples (Fin r) i =
      (if idx + 1 < int (length samples) then
         ebind (py_getitem samples idx) (\<lambda>a.
         ebind (py_getitem samples (idx + 1)) (\<lambda>b.
           Inr (fadd (fmul a (fsub (Fin 1) (fsub (Fin s) (Fin fx)))) (fmul b (fsub (Fin s) (Fin fx))))))
       else if idx < int (length samples) then py_getitem samples idx
       else Inr (Fin 0))"
    by (simp add: resample_at_def int_mul_float_def fi(2) s float_to_int_def tz
        float_sub_int_def fx(2) int_sub_float_def one)
  have rhs: "interp samples (Fin r) (nat i) =
      (if nat idx + 1 < length samples
       then fadd (fmul (samples ! nat idx) (fsub (Fin 1) (fsub (Fin s) (Fin fx))))
              (fmul (samples ! (nat idx + 1)) (fsub (Fin s) (Fin fx)))
       else if nat idx < length samples then samples ! nat idx
       else Fin 0)"
    unfolding interp_def ni fi(1) by (simp add: s idx_def[symmetric] nx fx(1) Let_def)
  show ?thesis
  proof (cases "idx + 1 < int (length samples)")
    case True
    then have g: "py_getitem samples idx = Inr (samples ! nat idx)"
      "py_getitem samples (idx + 1) = Inr (samples ! (nat idx + 1))"
      using idx0 by (simp_all add: py_getitem_in nat_add_distrib)
    show ?thesis using True c1 by (simp add: lhs rhs g)
  next
    case False
    show ?thesis
    proof (cases "idx < int (length samples)")
      case True
      then have "py_getitem samples idx = Inr (samples ! nat idx)"
        using idx0 by (simp add: py_getitem_in)
      then show ?thesis using True False c1 c2 by (simp add: lhs rhs)
    next
      case F2: False
      then show ?thesis using False c1 c2 by (simp add: lhs rhs)
    qed
  qed
qed

lemma resample_formula:
  assumes pos: "0 < from_rate" "0 < to_rate" and ne: "from_rate \<noteq> to_rate"
    and len: "int (length samples) \<le> 2 ^ 63"
    and ratio: "int_truediv from_rate to_rate = Inr (Fin r)" "r \<noteq> 0"
    and q: "int_div_float (int (length samples)) (Fin r) = Inr (Fin m)"
  shows "resample samples from_rate to_rate = Inr (map (interp samples (Fin r)) [0..<nat \<lfloor>m\<rfloor>])"
    and "0 \<le> m"
proof -
  define n where "n = int (length samples)"
  have br: "b64_round (of_int from_rate / of_int to_rate) = Fin r"
    using ratio(1) pos by (simp add: int_truediv_def split: pyfloat.splits)
  have "(0::rat) \<le> of_int from_rate / of_int to_rate" using pos by simp
  then have "0 \<le> r" using b64_round_sign[OF br] by simp
  then have r: "0 < r" using ratio(2) by simp
  have p63: "b64_round (pow2 63) = Fin (pow2 63)" by (rule b64_pow2) simp_all
  have "(of_int n :: rat) \<le> of_int (2 ^ 63)" using len unfolding n_def by (simp only: of_int_le_iff)
  then have "(of_int n :: rat) \<le> pow2 63" by (simp add: pow2_powi)
  then obtain fn where fn: "float_of_int n = Inr (Fin fn)" "0 \<le> fn" "fn \<le> pow2 63"
    using float_of_int_below[of n "pow2 63"] p63 by (auto simp: n_def)
  have bm: "b64_round (fn / r) = Fin m"
    using q r by (simp add: int_div_float_def n_def[symmetric] fn(1))
  have m0: "0 \<le> m" using b64_round_sign[OF bm] fn(2) r by simp
  have "m \<le> 2 * (fn / r)" using fn(2) r by (intro b64_round_le_double[OF _ bm]) simp
  then have "m * r \<le> 2 * (fn / r) * r" using r by (simp only: mult_le_cancel_right_pos)
  also have "\<dots> = 2 * fn" using r by simp
  also have "\<dots> \<le> 2 * pow2 63" using fn(3) by simp
  also have "\<dots> = pow2 64" using pow2_Suc[of 63] by simp
  finally have mr: "m * r \<le> pow2 64" .
  have mm: "b64_round m = Fin m" using bm by (rule b64_round_idem)
  have tz: "trunc_zero m = \<lfloor>m\<rfloor>" using m0 by (simp add: trunc_zero_def)
  have at: "resample_at samples (Fin r) (int k) = Inr (interp samples (Fin r) k)"
    if "k < nat \<lfloor>m\<rfloor>" for k
  proof -
    have "int k < \<lfloor>m\<rfloor>" using that by linarith
    then have "of_int (int k) \<le> m" by (simp add: less_floor_iff)
    then show ?thesis using resample_at_ok[OF r mm mr, of "int k" samples] by simp
  qed
  have "map_err (resample_at samples (Fin r)) (py_range 0 \<lfloor>m\<rfloor>)
      = Inr (map (\<lambda>j. interp samples (Fin r) (nat j)) (py_range 0 \<lfloor>m\<rfloor>))"
    by (rule map_err_map) (auto simp: py_range_def at)
  also have "map (\<lambda>j. interp samples (Fin r) (nat j)) (py_range 0 \<lfloor>m\<rfloor>)
      = map (interp samples (Fin r)) [0..<nat \<lfloor>m\<rfloor>]"
    by (simp add: py_range_def comp_def)
  finally show "resample samples from_rate to_rate = Inr (map (interp samples (Fin r)) [0..<nat \<lfloor>m\<rfloor>])"
    using ne by (simp add: resample_def ratio(1) q[unfolded n_def[symmetric]] n_def[symmetric] float_to_int_def tz)
  show "0 \<le> m" by (rule m0)
qed

section \<open>Facts about the text and the packaging\<close>

lemma round_below_ten:
  assumes "0 \<le> q" "q \<le> 10 - 10 / 2 ^ 53"
  shows "\<exists>r. b64_round q = Fin r \<and> 0 \<le> r \<and> r < 10"
proof (cases "q < 8")
  case True
  have p: "pow2 3 = 8" by (simp add: pow2_def)
  have "b64_round (pow2 3) = Fin (pow2 3)" by (rule b64_pow2) simp_all
  then obtain r where r: "b64_round q = Fin r" "\<bar>r\<bar> \<le> 8"
    using b64_round_bound[of "pow2 3" q] True assms(1) by (auto simp: p)
  have "0 \<le> r" using b64_round_sign[OF r(1)] assms(1) by simp
  then show ?thesis using r by auto
next
  case False
  then have q8: "8 \<le> q" by simp
  have q0: "q \<noteq> 0" "\<bar>q\<bar> = q" using q8 by simp_all
  have "pow2 3 \<le> q" "q < pow2 (3 + 1)" using q8 assms(2) by (simp_all add: pow2_def)
  then have "ilog2 q = 3" by (rule ilog2_unique)
  then have e: "b64_exp q = - 49" by (simp add: b64_exp_def q0)
  define y where "y = q / pow2 (- 49)"
  define M where "M = round_half_even y"
  have py: "pow2 (- 49) = 1 / 2 ^ 49" by (simp add: pow2_def)
  have "y \<le> (10 - 10 / 2 ^ 53) * 2 ^ 49" using assms(2) by (simp add: y_def py)
  also have "\<dots> = 10 * 2 ^ 49 - 5 / 8" by simp
  finally have yb: "y \<le> 10 * 2 ^ 49 - 5 / 8" .
  have "\<bar>of_int M - y\<bar> \<le> 1 / 2" unfolding M_def by (rule round_half_even_near)
  then have "(of_int M :: rat) < 10 * 2 ^ 49" using yb by linarith
  then have "(of_int M :: rat) < of_int (10 * 2 ^ 49)" by simp
  then have "M < 10 * 2 ^ 49" by (simp only: of_int_less_iff)
  then have Mu: "M \<le> 10 * 2 ^ 49 - 1" by simp
  have "0 \<le> y" using assms(1) by (simp add: y_def)
  then have M0: "0 \<le> M" unfolding M_def by (rule round_half_even_nonneg)
  define r where "r = of_int M * pow2 (- 49)"
  have "(of_int M :: rat) \<le> of_int (10 * 2 ^ 49 - 1)" using Mu by (simp only: of_int_le_iff)
  then have "r \<le> of_int (10 * 2 ^ 49 - 1) * pow2 (- 49)"
    unfolding r_def by (simp only: mult_le_cancel_right_pos[OF pow2_pos])
  also have "\<dots> < 10" by (simp add: py)
  finally have ru: "r < 10" .
  have r0: "0 \<le> r" using M0 by (simp add: r_def)
  have "10 < pow2 1024" using pow2_less_iff[of 4 1024] by (simp add: pow2_def)
  then have "\<not> pow2 1024 \<le> \<bar>r\<bar>" using ru r0 by linarith
  then have "b64_round q = Fin r"
    using q0(1) by (simp add: b64_round_eq e y_def[symmetric] M_def[symmetric] r_def Let_def)
  then show ?thesis using r0 ru by blast
qed

lemma random_index_digit:
  "\<exists>idx. float_floor (fmul (fst (random_unit g)) (Fin 10)) = Inr idx \<and> 0 \<le> idx \<and> idx < 10"
proof -
  obtain k where k: "fst (random_unit g) = Fin (of_int k / 2 ^ 53)" "0 \<le> k" "k \<le> 2 ^ 53 - 1"
    using random_unit_range by blast
  have "(of_int k :: rat) \<le> of_int (2 ^ 53 - 1)" using k(3) by (simp only: of_int_le_iff)
  then have kb: "(of_int k :: rat) \<le> 2 ^ 53 - 1" by simp
  define q where "q = (of_int k :: rat) / 2 ^ 53 * 10"
  have "q \<le> (2 ^ 53 - 1) / 2 ^ 53 * 10" unfolding q_def using kb by (simp add: divide_right_mono)
  also have "\<dots> = 10 - 10 / 2 ^ 53" by (simp add: field_simps)
  finally have "q \<le> 10 - 10 / 2 ^ 53" .
  moreover have "0 \<le> q" using k(2) by (simp add: q_def)
  ultimately obtain r where r: "b64_round q = Fin r" "0 \<le> r" "r < 10"
    using round_below_ten by blast
  have "0 \<le> \<lfloor>r\<rfloor>" "\<lfloor>r\<rfloor> < 10" using r(2,3) by (simp_all add: floor_less_iff)
  moreover have "fmul (fst (random_unit g)) (Fin 10) = Fin r"
    by (simp only: k(1) fmul.simps q_def[symmetric] r(1))
  ultimately show ?thesis by (simp add: float_floor_def)
qed

lemma characters_digit:
  assumes "0 \<le> idx" "idx < 10"
  shows "\<exists>c. py_getitem characters idx = Inr c \<and> digit c"
proof -
  have "list_all digit characters" by (simp add: characters_def digit_def)
  moreover have "nat idx < length characters" using assms by (simp add: characters_def)
  ultimately have "digit (characters ! nat idx)" by (simp add: list_all_length)
  then show ?thesis using assms by (simp add: py_getitem_in characters_def)
qed

lemma choices_loop_digits:
  "\<exists>cs g'. choices_loop characters (Fin 10) k g = Inr (cs, g') \<and> length cs = k \<and> list_all digit cs"
proof (induction k arbitrary: g)
  case 0
  then show ?case by simp
next
  case (Suc k)
  obtain u g1 where ug: "random_unit g = (u, g1)" by (cases "random_unit g")
  obtain idx where idx: "float_floor (fmul u (Fin 10)) = Inr idx" "0 \<le> idx" "idx < 10"
    using random_index_digit[of g] by (auto simp: ug)
  obtain c where c: "py_getitem characters idx = Inr c" "digit c"
    using characters_digit[OF idx(2,3)] by blast
  obtain cs g' where cs: "choices_loop characters (Fin 10) k g1 = Inr (cs, g')" "length cs = k"
      "list_all digit cs"
    using Suc.IH[of g1] by blast
  show ?case by (simp add: ug idx(1) c cs)
qed

lemma generate_text_digits:
  assumes "0 \<le> len"
  shows "\<exists>tx g'. generate_text len g = Inr (tx, g') \<and> int (length tx) = len \<and> list_all digit tx"
proof -
  have f: "float_of_int (int (length characters)) = Inr (Fin 10)"
    using float_of_int_small[of 10] by (simp add: characters_def)
  have a: "b64_round 10 = Fin 10"
    using pow2_less_iff[of 4 1024]
    by (intro b64_round_exact[where m = 10 and e = 0]) (simp_all add: pow2_def)
  show ?thesis
    using choices_loop_digits[of "nat len" g] assms
    by (auto simp: generate_text_def choices_def f a)
qed

section \<open>Properties of the pipeline\<close>

text \<open>
  C3. Resampling a buffer to the rate it already has returns the buffer itself,
  unchanged, for every buffer and every rate.
\<close>

theorem resample_same_rate: "resample b r r = Inr b"
  by (simp add: resample_def)

lemma normalize_in_range':
  assumes "\<forall>s \<in> set samples. in_s16 s"
  shows "normalize samples = Inr (map norm16 samples)"
  using normalize_in_range[OF assms] by (simp add: norm16_def)

lemma decode_frames_extracted:
  assumes "extract_samples (sampwidth wv) (frames wv) = Inr samples"
  shows "decode_frames wv =
    Inr (map norm16 (if nchannels wv = 2 then downmix samples else samples), framerate wv)"
proof -
  have r: "\<forall>s \<in> set samples. in_s16 s" using assms by (rule extract_samples_range)
  then have "\<forall>s \<in> set (downmix samples). in_s16 s" by (rule downmix_range)
  then show ?thesis
    using r assms by (simp add: decode_frames_def normalize_in_range')
qed

lemma downmix_pairs:
  "downmix (concat (map (\<lambda>(l, r). [l, r]) ps)) = map (\<lambda>(l, r). (l + r) div 2) ps"
  by (induction ps) auto

lemma downmix_length: "length (downmix samples) = (length samples + 1) div 2"
  by (induction samples rule: downmix.induct) simp_all

lemma downmix_snoc:
  "even (length samples) \<Longrightarrow> downmix (samples @ [s]) = downmix samples @ [s]"
  by (induction samples rule: downmix.induct) simp_all

text \<open>
  C1 (amended). For every stereo container, each consecutive pair \<open>(l, r)\<close> of extracted
  samples becomes the mono sample \<open>(l + r) // 2\<close>, the average rounded towards minus
  infinity, divided by 32768.
\<close>

theorem stereo_pairs_floor_average:
  assumes "nchannels wv = 2"
    and "extract_samples (sampwidth wv) (frames wv) = Inr (concat (map (\<lambda>(l, r). [l, r]) ps))"
  shows "decode_frames wv = Inr (map (\<lambda>(l, r). norm16 ((l + r) div 2)) ps, framerate wv)"
proof -
  have "map norm16 (map (\<lambda>(l, r). (l + r) div 2) ps) = map (\<lambda>(l, r). norm16 ((l + r) div 2)) ps"
    by (simp add: split_def)
  moreover have "decode_frames wv =
      Inr (map norm16 (map (\<lambda>(l, r). (l + r) div 2) ps), framerate wv)"
    using decode_frames_extracted[OF assms(2)] assms(1) by (simp add: downmix_pairs)
  ultimately show ?thesis by (simp only:)
qed

text \<open>The pairs \<open>(- 1, 0)\<close> and \<open>(3, 4)\<close> in a 16-bit stereo container.\<close>

theorem stereo_pairs_floor_average_witness:
  "nchannels \<lparr>nchannels = 2, sampwidth = 2, framerate = 22050, frames = [255, 255, 0, 0, 3, 0, 4, 0]\<rparr> = 2
   \<and> extract_samples 2 [255, 255, 0, 0, 3, 0, 4, 0] = Inr (concat (map (\<lambda>(l, r). [l, r]) [(- 1, 0), (3, 4)]))
   \<and> decode_frames \<lparr>nchannels = 2, sampwidth = 2, framerate = 22050, frames = [255, 255, 0, 0, 3, 0, 4, 0]\<rparr>
       = Inr ([Fin (- 1 / 32768), Fin (3 / 32768)], 22050)"
proof -
  have e: "extract_samples 2 [255, 255, 0, 0, 3, 0, 4, 0] = Inr (concat (map (\<lambda>(l, r). [l, r]) [(- 1, 0), (3, 4)]))"
    by (simp add: extract_samples_def s16_le_def)
  show ?thesis
    using stereo_pairs_floor_average[of "\<lparr>nchannels = 2, sampwidth = 2, framerate = 22050, frames = [255, 255, 0, 0, 3, 0, 4, 0]\<rparr>" "[(- 1, 0), (3, 4)]"] e
    by (simp add: norm16_def)
qed

text \<open>
  C1 as stated, with the average truncated towards zero, fails on the pair \<open>(- 1, 0)\<close>: the
  decoder yields \<open>- 1 / 32768\<close>, truncation would yield \<open>0\<close>.
\<close>

theorem stereo_truncating_average_counterexample:
  "extract_samples 2 [255, 255, 0, 0] = Inr [- 1, 0]
   \<and> decode_frames \<lparr>nchannels = 2, sampwidth = 2, framerate = 22050, frames = [255, 255, 0, 0]\<rparr>
       \<noteq> Inr ([norm16 (trunc_avg (- 1) 0)], 22050)"
proof -
  have e: "extract_samples 2 [255, 255, 0, 0] = Inr [- 1, 0]"
    by (simp add: extract_samples_def s16_le_def)
  have "decode_frames \<lparr>nchannels = 2, sampwidth = 2, framerate = 22050, frames = [255, 255, 0, 0]\<rparr>
      = Inr ([norm16 (- 1)], 22050)"
    using decode_frames_extracted[of "\<lparr>nchannels = 2, sampwidth = 2, framerate = 22050, frames = [255, 255, 0, 0]\<rparr>" "[- 1, 0]"] e
    by simp
  moreover have "trunc_avg (- 1) 0 = 0" by (simp add: trunc_avg_def signed_divide_int_def)
  ultimately show ?thesis using e by (simp add: norm16_def)
qed

text \<open>
  C10. For every stereo container whose extracted sample list has odd length, the last
  sample has no partner and goes to the mono output as it is (normalised, neither dropped
  nor averaged), after the averages of the pairs before it; the mono length is the sample
  count divided by two, rounded up.
\<close>

theorem stereo_odd_tail_kept:
  assumes "nchannels wv = 2"
    and "extract_samples (sampwidth wv) (frames wv) = Inr samples"
    and "odd (length samples)"
  shows "decode_frames wv =
      Inr (map norm16 (downmix (butlast samples)) @ [norm16 (last samples)], framerate wv)
    \<and> length (downmix samples) = (length samples + 1) div 2"
proof -
  have ne: "samples \<noteq> []" using assms(3) by auto
  then have s: "samples = butlast samples @ [last samples]" by simp
  have "even (length (butlast samples))" using assms(3) ne by simp
  then have "downmix samples = downmix (butlast samples) @ [last samples]"
    using downmix_snoc[of "butlast samples" "last samples"] s by simp
  then have "decode_frames wv =
      Inr (map norm16 (downmix (butlast samples)) @ [norm16 (last samples)], framerate wv)"
    using decode_frames_extracted[OF assms(2)] assms(1) by simp
  then show ?thesis by (simp only: downmix_length simp_thms)
qed


text \<open>Three samples \<open>2, 5, 9\<close> in a 16-bit stereo container.\<close>

theorem stereo_odd_tail_kept_witness:
  "nchannels \<lparr>nchannels = 2, sampwidth = 2, framerate = 22050, frames = [2, 0, 5, 0, 9, 0]\<rparr> = 2
   \<and> extract_samples 2 [2, 0, 5, 0, 9, 0] = Inr [2, 5, 9]
   \<and> odd (length [2, 5, 9 :: int])
   \<and> decode_frames \<lparr>nchannels = 2, sampwidth = 2, framerate = 22050, frames = [2, 0, 5, 0, 9, 0]\<rparr>
       = Inr ([Fin (3 / 32768), Fin (9 / 32768)], 22050)
   \<and> length (downmix [2, 5, 9]) = 2"
proof -
  have e: "extract_samples 2 [2, 0, 5, 0, 9, 0] = Inr [2, 5, 9]"
    by (simp add: extract_samples_def s16_le_def)
  show ?thesis
    using stereo_odd_tail_kept[of "\<lparr>nchannels = 2, sampwidth = 2, framerate = 22050, frames = [2, 0, 5, 0, 9, 0]\<rparr>" "[2, 5, 9]"] e
    by (simp add: norm16_def)
qed

lemma wav_to_samples_parsed:
  "wave_open bs = Inr wv \<Longrightarrow> wav_to_samples wave_open bs = decode_frames wv"
  by (simp add: wav_to_samples_def)

text \<open>
  C2 as stated fails: a container that the library parses as three channels of 16-bit
  samples is decoded, its interleaved samples returned as they are.
\<close>

theorem three_channels_decoded_counterexample:
  "wav_to_samples
     (\<lambda>bs. Inr \<lparr>nchannels = 3, sampwidth = 2, framerate = 22050, frames = [1, 0, 2, 0, 3, 0]\<rparr>) []
   = Inr ([Fin (1 / 32768), Fin (2 / 32768), Fin (3 / 32768)], 22050)"
proof -
  have e: "extract_samples 2 [1, 0, 2, 0, 3, 0] = Inr [1, 2, 3]"
    by (simp add: extract_samples_def s16_le_def)
  show ?thesis
    using decode_frames_extracted[of "\<lparr>nchannels = 3, sampwidth = 2, framerate = 22050, frames = [1, 0, 2, 0, 3, 0]\<rparr>" "[1, 2, 3]"] e
    by (simp add: wav_to_samples_def norm16_def)
qed

text \<open>
  C2 (amended). Decoding has no error of its own and checks neither the channel count nor
  the sample width. When the container library, which alone parses the header, raises on
  the bytes, its exception is passed on and no buffer is returned. When the
  library returns an odd number of frame bytes for a sample width of 2 (a data section
  cut short; a well-formed container gives whole frames), \<open>struct.unpack\<close> raises
  \<open>struct.error\<close>. In every other case with a sample width of at least one byte decoding
  succeeds, whatever the channel count and the width: it returns the frame rate and the
  16-bit samples of the frame bytes, each divided by 32768, as they are for a channel
  count other than 2 (so for 3 or more channels as well), downmixed for 2 channels. The
  samples of a width other than 1 and 2 are the little-endian signed values of the groups
  of \<open>width\<close> bytes, shifted right by \<open>8 * (width - 2)\<close> bits.
\<close>

theorem decode_failures:
  "(wave_open bs = Inl e \<longrightarrow> wav_to_samples wave_open bs = Inl e)
   \<and> (wave_open bs = Inr wv \<and> sampwidth wv = 2 \<and> odd (length (frames wv))
        \<longrightarrow> wav_to_samples wave_open bs = Inl StructError)
   \<and> (wave_open bs = Inr wv \<and> 0 < sampwidth wv
        \<and> (sampwidth wv = 2 \<longrightarrow> even (length (frames wv)))
        \<longrightarrow> wav_to_samples wave_open bs =
              Inr (map norm16
                     (if nchannels wv = 2 then downmix (pcm_samples (sampwidth wv) (frames wv))
                      else pcm_samples (sampwidth wv) (frames wv)),
                   framerate wv))"
proof (intro conjI impI)
  assume "wave_open bs = Inl e"
  then show "wav_to_samples wave_open bs = Inl e" by (simp add: wav_to_samples_def)
next
  assume "wave_open bs = Inr wv \<and> sampwidth wv = 2 \<and> odd (length (frames wv))"
  then show "wav_to_samples wave_open bs = Inl StructError"
    by (simp add: wav_to_samples_def decode_frames_def extract_samples_def unpack_h_odd)
next
  assume a: "wave_open bs = Inr wv \<and> 0 < sampwidth wv
        \<and> (sampwidth wv = 2 \<longrightarrow> even (length (frames wv)))"
  then have "extract_samples (sampwidth wv) (frames wv) = Inr (pcm_samples (sampwidth wv) (frames wv))"
    by (intro extract_samples_pcm) simp_all
  then have "decode_frames wv =
      Inr (map norm16
             (if nchannels wv = 2 then downmix (pcm_samples (sampwidth wv) (frames wv))
              else pcm_samples (sampwidth wv) (frames wv)),
           framerate wv)"
    by (rule decode_frames_extracted)
  then show "wav_to_samples wave_open bs =
      Inr (map norm16
             (if nchannels wv = 2 then downmix (pcm_samples (sampwidth wv) (frames wv))
              else pcm_samples (sampwidth wv) (frames wv)),
           framerate wv)"
    using a by (simp add: wav_to_samples_def)
qed

text \<open>
  A header cut short, a 16-bit container with three frame bytes, and one frame of three
  channels of 24 bits.
\<close>

theorem decode_failures_witness:
  "wav_to_samples (\<lambda>bs. Inl EOFError) [82, 73, 70] = Inl EOFError
   \<and> wav_to_samples
        (\<lambda>bs. Inr \<lparr>nchannels = 1, sampwidth = 2, framerate = 8000, frames = [1, 0, 2]\<rparr>) []
      = Inl StructError
   \<and> wav_to_samples
        (\<lambda>bs. Inr \<lparr>nchannels = 3, sampwidth = 3, framerate = 8000,
                    frames = [0, 1, 0, 0, 255, 255, 0, 0, 128]\<rparr>) []
      = Inr ([Fin (1 / 32768), Fin (- 1 / 32768), Fin (- 1)], 8000)"
proof -
  have p: "pcm_samples 3 [0, 1, 0, 0, 255, 255, 0, 0, 128] = [1, - 1, - 32768]"
    by code_simp
  show ?thesis
    using decode_failures[of "\<lambda>bs. Inl EOFError" "[82, 73, 70]" EOFError
        "\<lparr>nchannels = 1, sampwidth = 2, framerate = 8000, frames = []\<rparr>"]
      decode_failures[of "\<lambda>bs. Inr \<lparr>nchannels = 1, sampwidth = 2, framerate = 8000, frames = [1, 0, 2]\<rparr>"
        "[]" EOFError "\<lparr>nchannels = 1, sampwidth = 2, framerate = 8000, frames = [1, 0, 2]\<rparr>"]
      decode_failures[of "\<lambda>bs. Inr \<lparr>nchannels = 3, sampwidth = 3, framerate = 8000,
                    frames = [0, 1, 0, 0, 255, 255, 0, 0, 128]\<rparr>"
        "[]" EOFError "\<lparr>nchannels = 3, sampwidth = 3, framerate = 8000,
                    frames = [0, 1, 0, 0, 255, 255, 0, 0, 128]\<rparr>"]
    by (simp add: p norm16_def)
qed

text \<open>
  C5 as stated fails for the rates that the container library does not take: at the rate
  \<open>2 ^ 32\<close> the header fields do not fit and \<open>struct.pack\<close> raises, at the rate \<open>0\<close> the
  library raises \<open>wave.Error\<close>.
\<close>

theorem encode_rate_out_of_range_counterexample:
  "samples_to_wav wave_write [Fin 0] (2 ^ 32) = Inl StructError
   \<and> samples_to_wav wave_write [Fin 0] 0 = Inl WaveError"
  using wave_write_large_rate[of "2 ^ 32" "[Fin 0]"] wave_write_bad_rate[of 0 "[Fin 0]"]
  by simp

text \<open>
  C5 (amended). For every sample buffer (finite samples or not) of fewer than
  \<open>2 ^ 31 - 18\<close> samples and every rate from \<open>1\<close> to \<open>2 ^ 31 - 1\<close>, encoding succeeds: it
  returns the 44-byte header that declares 1 channel, a sample width of 2 bytes (16 bits)
  and the given rate, followed by, for each input sample in order, the two little-endian
  bytes of \<open>truncate(clamp(sample, - 1, 1) * 32767)\<close>, a value in the signed 16-bit range.
  At a rate of \<open>0\<close> or less the library raises \<open>wave.Error\<close>, at a rate of \<open>2 ^ 31\<close> or
  more \<open>struct.error\<close> (the byte rate, twice the rate, is an unsigned 32-bit field). The
  encoder's own loop never raises.
\<close>

theorem encode_by_rate:
  "(0 < rate \<and> rate < 2 ^ 31 \<and> int (length samples) < 2 ^ 31 - 18
      \<longrightarrow> samples_to_wav wave_write samples rate =
            Inr (riff_header 1 2 rate (2 * length samples)
                 @ concat (map (\<lambda>s. le16 (quantized s)) samples)))
   \<and> (rate \<le> 0 \<longrightarrow> samples_to_wav wave_write samples rate = Inl WaveError)
   \<and> (2 ^ 31 \<le> rate \<longrightarrow> samples_to_wav wave_write samples rate = Inl StructError)
   \<and> pack_samples samples = Inr (concat (map (\<lambda>s. le16 (quantized s)) samples))
   \<and> in_s16 (quantized s)
   \<and> quantized (Fin q) = trunc_zero (fin_val (fmul (Fin (max (- 1) (min 1 q))) (Fin 32767)))"
proof (intro conjI impI)
  assume "0 < rate \<and> rate < 2 ^ 31 \<and> int (length samples) < 2 ^ 31 - 18"
  then show "samples_to_wav wave_write samples rate =
      Inr (riff_header 1 2 rate (2 * length samples)
           @ concat (map (\<lambda>s. le16 (quantized s)) samples))"
    by (intro wave_write_in_range) simp_all
next
  assume "rate \<le> 0"
  then show "samples_to_wav wave_write samples rate = Inl WaveError"
    by (rule wave_write_bad_rate)
next
  assume "2 ^ 31 \<le> rate"
  then show "samples_to_wav wave_write samples rate = Inl StructError"
    by (rule wave_write_large_rate)
next
  show "pack_samples samples = Inr (concat (map (\<lambda>s. le16 (quantized s)) samples))"
    by (rule pack_samples_total)
next
  show "in_s16 (quantized s)" using quantize_total by blast
next
  show "quantized (Fin q) = trunc_zero (fin_val (fmul (Fin (max (- 1) (min 1 q))) (Fin 32767)))"
    by (simp add: quantized_def clamp_Fin)
qed

text \<open>
  The samples \<open>- 1.0, 0.0\<close> at 22050 Hz, at the rate \<open>- 1\<close> and at the rate \<open>2 ^ 31\<close>.
\<close>

theorem encode_by_rate_witness:
  "samples_to_wav wave_write [Fin (- 1), Fin 0] 22050 =
     Inr [82, 73, 70, 70, 40, 0, 0, 0, 87, 65, 86, 69, 102, 109, 116, 32, 16, 0, 0, 0,
          1, 0, 1, 0, 34, 86, 0, 0, 68, 172, 0, 0, 2, 0, 16, 0, 100, 97, 116, 97, 4, 0, 0, 0,
          1, 128, 0, 0]
   \<and> samples_to_wav wave_write [Fin (- 1), Fin 0] (- 1) = Inl WaveError
   \<and> samples_to_wav wave_write [Fin (- 1), Fin 0] 2147483648 = Inl StructError"
proof -
  have q: "quantized (Fin (- 1)) = - 32767" "quantized (Fin 0) = 0"
    by code_simp+
  show ?thesis
    using encode_by_rate[of 22050 "[Fin (- 1), Fin 0]" "Fin 0" 0]
      encode_by_rate[of "- 1" "[Fin (- 1), Fin 0]" "Fin 0" 0]
      encode_by_rate[of 2147483648 "[Fin (- 1), Fin 0]" "Fin 0" 0]
    by (simp add: q riff_header_def le32_def le16_def)
qed



text \<open>
  C6. For every buffer (of length \<open>n\<close>) and every drawn burst, with \<open>start\<close> and \<open>len\<close>
  the two values drawn, the burst raises no IndexError, keeps the length of the buffer,
  and leaves every index below \<open>start\<close> and every index from \<open>min(start + len, n)\<close> on as
  it was: it writes only inside the buffer, also when \<open>start + len\<close> exceeds \<open>n\<close>.
\<close>

theorem crackle_burst_in_bounds:
  assumes "randint 0 (max 0 (int (length samples) - 500)) g = Inr (start, g1)"
    and "randint 80 300 g1 = Inr (len, g2)"
  shows "\<exists>samples' g'. crackle_burst (int (length samples)) (samples, g) = Inr (samples', g')
    \<and> length samples' = length samples
    \<and> (\<forall>j < length samples.
          int j < start \<or> min (start + len) (int (length samples)) \<le> int j
          \<longrightarrow> samples' ! j = samples ! j)"
  using assms by (rule crackle_burst_frame)

text \<open>A buffer of 502 samples and a burst drawn at \<open>start = 1\<close> with \<open>len = 158\<close>.\<close>

theorem crackle_burst_in_bounds_witness:
  "randint 0 (max 0 (int (length (replicate 502 (Fin 0))) - 500))
      \<lparr>draws = (\<lambda>i. if i = 0 then 1 else 299), pos = 0\<rparr>
    = Inr (1, \<lparr>draws = (\<lambda>i. if i = 0 then 1 else 299), pos = 1\<rparr>)
   \<and> randint 80 300 \<lparr>draws = (\<lambda>i. if i = 0 then 1 else 299), pos = 1\<rparr>
    = Inr (158, \<lparr>draws = (\<lambda>i. if i = 0 then 1 else 299), pos = 2\<rparr>)
   \<and> (\<exists>samples' g'.
        crackle_burst 502 (replicate 502 (Fin 0), \<lparr>draws = (\<lambda>i. if i = 0 then 1 else 299), pos = 0\<rparr>)
          = Inr (samples', g')
        \<and> length samples' = 502
        \<and> samples' ! 0 = Fin 0 \<and> samples' ! 160 = Fin 0 \<and> samples' ! 501 = Fin 0)"
proof -
  let ?g = "\<lparr>draws = (\<lambda>i. if i = 0 then 1 else 299), pos = 0 :: nat\<rparr>"
  have r1: "randint 0 (max 0 (int (length (replicate 502 (Fin 0))) - 500)) ?g
      = Inr (1, ?g\<lparr>pos := 1\<rparr>)"
    by (simp add: randint_def next_raw_def)
  have r2: "randint 80 300 (?g\<lparr>pos := 1\<rparr>) = Inr (158, ?g\<lparr>pos := 2\<rparr>)"
    by (simp add: randint_def next_raw_def)
  obtain samples' g' where c:
    "crackle_burst (int (length (replicate 502 (Fin 0)))) (replicate 502 (Fin 0), ?g) = Inr (samples', g')"
    "length samples' = length (replicate 502 (Fin 0))"
    "\<forall>j < length (replicate 502 (Fin 0)).
       int j < 1 \<or> min (1 + 158) (int (length (replicate 502 (Fin 0)))) \<le> int j
       \<longrightarrow> samples' ! j = replicate 502 (Fin 0) ! j"
    using crackle_burst_in_bounds[OF r1 r2] by blast
  have "samples' ! 0 = Fin 0" "samples' ! 160 = Fin 0" "samples' ! 501 = Fin 0"
    using c(3)[rule_format, of 0] c(3)[rule_format, of 160] c(3)[rule_format, of 501]
    by simp_all
  then show ?thesis using r1 r2 c(1,2) by simp
qed

text \<open>
  C7. For every buffer, every random source and every sine routine, the distortion pass at
  a nonzero sample rate returns a buffer of the same length (for a buffer of at most
  \<open>2 ^ 63\<close> samples, more than a Python list can hold). The pass returns the samples
  only: the rate is an argument it reads and never changes.
\<close>

theorem add_noise_keeps_length:
  assumes "sample_rate \<noteq> 0" and "int (length samples) \<le> 2 ^ 63"
  shows "\<exists>samples' g'. add_noise sin_impl samples sample_rate g = Inr (samples', g')
    \<and> length samples' = length samples"
  using assms by (rule add_noise_total)

text \<open>Three samples at 22050 Hz.\<close>

theorem add_noise_keeps_length_witness:
  "\<exists>samples' g'.
     add_noise (\<lambda>x. 0) [Fin 0, Fin (1 / 2), Fin (- 1)] 22050 \<lparr>draws = (\<lambda>i. 7 * i), pos = 0\<rparr>
       = Inr (samples', g')
     \<and> length samples' = 3"
  using add_noise_keeps_length[of 22050 "[Fin 0, Fin (1 / 2), Fin (- 1)]" "\<lambda>x. 0"
      "\<lparr>draws = (\<lambda>i. 7 * i), pos = 0\<rparr>"]
  by (simp add: numeral_3_eq_3)

text \<open>
  C4 as stated fails at rates far apart: the quotient of the rates \<open>1\<close> and \<open>2 ^ 1076\<close>
  underflows to \<open>0.0\<close>, and the division of the length by it raises ZeroDivisionError.
\<close>

theorem resample_tiny_ratio_counterexample:
  "resample [Fin 0] 1 (2 ^ 1076) = Inl ZeroDivisionError"
proof -
  have "(1 :: rat) / 2 ^ 1076 < 1 / 2 ^ 1075"
    by (intro divide_strict_left_mono power_strict_increasing) simp_all
  then have "\<bar>(of_int 1 :: rat) / of_int (2 ^ 1076)\<bar> < pow2 (- 1075)"
    by (simp add: pow2_def)
  then have "b64_round (of_int 1 / of_int (2 ^ 1076)) = Fin 0" by (rule b64_round_tiny)
  then have "int_truediv 1 (2 ^ 1076) = Inr (Fin 0)"
    by (simp add: int_truediv_def)
  moreover have "float_of_int 1 = Inr (Fin 1)" using float_of_int_small[of 1] by simp
  ultimately show ?thesis
    by (simp add: resample_def int_div_float_def)
qed

text \<open>
  C4 (amended). For every sample buffer (of at most \<open>2 ^ 63\<close> samples) and every pair of
  distinct positive rates whose float quotient \<open>ratio = source_rate / target_rate\<close> is
  not zero, and for which the float \<open>m = old_length / ratio\<close> is finite, resampling
  returns \<open>floor(m)\<close> samples, and the sample at each index \<open>i\<close> is the interpolation
  \<open>sample[idx] * (1 - frac) + sample[idx + 1] * frac\<close> with \<open>src = i * ratio\<close>,
  \<open>idx = floor(src)\<close>, \<open>frac = src - idx\<close>, or \<open>sample[idx]\<close> when only \<open>idx\<close> is in
  bounds, or \<open>0.0\<close> when \<open>idx\<close> is out of bounds; every operation is the binary64
  operation, so that \<open>floor(m)\<close> can be one less than the floor of the exact quotient.
\<close>

theorem resample_interpolates:
  assumes "0 < from_rate" and "0 < to_rate" and "from_rate \<noteq> to_rate"
    and "int (length samples) \<le> 2 ^ 63"
    and "int_truediv from_rate to_rate = Inr (Fin r)" and "r \<noteq> 0"
    and "int_div_float (int (length samples)) (Fin r) = Inr (Fin m)"
  shows "\<exists>out. resample samples from_rate to_rate = Inr out
    \<and> length out = nat \<lfloor>m\<rfloor>
    \<and> (\<forall>i < nat \<lfloor>m\<rfloor>. out ! i = interp samples (Fin r) i)"
  using resample_formula(1)[OF assms] by simp

text \<open>
  Nine samples from 9 Hz to 7 Hz: the ratio is \<open>1.2857142857142858\<close>, the quotient
  \<open>9 / ratio\<close> is \<open>6.999999999999999\<close>, and six samples come out.
\<close>

theorem resample_interpolates_witness:
  "int_truediv 9 7 = Inr (Fin (5790342378047781 / 4503599627370496))
   \<and> int_div_float 9 (Fin (5790342378047781 / 4503599627370496))
       = Inr (Fin (7881299347898367 / 1125899906842624))
   \<and> (\<exists>out.
        resample [Fin 0, Fin (1 / 8), Fin (2 / 8), Fin (3 / 8), Fin (4 / 8), Fin (5 / 8),
                  Fin (6 / 8), Fin (7 / 8), Fin 1] 9 7 = Inr out
        \<and> length out = 6
        \<and> out ! 1 = Fin (5790342378047781 / 36028797018963968))"
proof -
  let ?xs = "[Fin 0, Fin (1 / 8), Fin (2 / 8), Fin (3 / 8), Fin (4 / 8), Fin (5 / 8),
              Fin (6 / 8), Fin (7 / 8), Fin 1]"
  have r: "int_truediv 9 7 = Inr (Fin (5790342378047781 / 4503599627370496))"
    by code_simp
  have q: "int_div_float 9 (Fin (5790342378047781 / 4503599627370496))
      = Inr (Fin (7881299347898367 / 1125899906842624))"
    by code_simp
  have v: "interp ?xs (Fin (5790342378047781 / 4503599627370496)) 1
      = Fin (5790342378047781 / 36028797018963968)"
    by code_simp
  have f: "nat \<lfloor>7881299347898367 / 1125899906842624 :: rat\<rfloor> = 6" by code_simp
  obtain out where o: "resample ?xs 9 7 = Inr out"
      "length out = nat \<lfloor>7881299347898367 / 1125899906842624 :: rat\<rfloor>"
      "\<forall>i < nat \<lfloor>7881299347898367 / 1125899906842624 :: rat\<rfloor>.
         out ! i = interp ?xs (Fin (5790342378047781 / 4503599627370496)) i"
    using resample_interpolates[of 9 7 ?xs "5790342378047781 / 4503599627370496"
        "7881299347898367 / 1125899906842624"] r q
    by auto
  have "out ! 1 = interp ?xs (Fin (5790342378047781 / 4503599627370496)) 1"
    using o(3)[rule_format, of 1] f by simp
  then show ?thesis using r q o(1,2) f v by simp
qed

text \<open>
  C9. In the default invocation \<open>generate(5)\<close> the text generation never fails, and
  whenever the invocation returns, its text is a string of exactly 5 ASCII digits, and its
  audio string is the literal prefix
  \<open>data:audio/wav;base64,\<close> followed by the base64 encoding of the bytes that the
  container library wrote for a container declared with 1 channel and a sample width of 2
  bytes (16 bits), at 22050 Hz.
\<close>

theorem generate_result:
  assumes "generate E 5 g = Inr (res, g')"
  shows "(\<exists>tx g1. generate_text 5 g = Inr (tx, g1))
    \<and> length (captcha_text res) = 5 \<and> list_all digit (captcha_text res)
    \<and> (\<exists>wav packed.
          captcha_audio res = ''data:audio/wav;base64,'' @ b64encode E wav
          \<and> write_frames (writer E)
               \<lparr>nchannels = 1, sampwidth = 2, framerate = 22050, frames = packed\<rparr> = Inr wav)"
proof -
  obtain tx g1 where t: "generate_text 5 g = Inr (tx, g1)" "int (length tx) = 5" "list_all digit tx"
    using generate_text_digits[of 5 g] by auto
  obtain wav g2 where a: "generate_audio E tx g1 = Inr (wav, g2)"
      and res: "res = \<lparr>captcha_text = tx, captcha_audio = ''data:audio/wav;base64,'' @ b64encode E wav\<rparr>"
    using assms by (auto simp: generate_def t(1) ebind_def split: sum.splits)
  obtain fs where w: "samples_to_wav (writer E) fs 22050 = Inr wav"
    using a by (auto simp: generate_audio_def ebind_def split: sum.splits prod.splits if_splits)
  then have "\<exists>packed. write_frames (writer E)
      \<lparr>nchannels = 1, sampwidth = 2, framerate = 22050, frames = packed\<rparr> = Inr wav"
    by (auto simp: samples_to_wav_def ebind_def split: option.splits sum.splits)
  then show ?thesis using t by (auto simp: res)
qed

text \<open>
  A run with stand-ins for the collaborators: a speech engine whose container holds the
  one sample \<open>0.5\<close> at 22050 Hz, a container library that stores the frames as they are,
  and a random source that always draws \<open>0\<close>, so that the text is \<open>00000\<close>.
\<close>

theorem generate_result_witness:
  "\<exists>res g'.
     generate
       \<lparr>speech = (\<lambda>s g. Inr ([], g)),
        reader = (\<lambda>bs. Inr \<lparr>nchannels = 1, sampwidth = 2, framerate = 22050, frames = [0, 64]\<rparr>),
        writer = \<lparr>set_params = (\<lambda>c w r. None), write_frames = (\<lambda>c. Inr (frames c))\<rparr>,
        sine = (\<lambda>x. 0),
        b64encode = map (\<lambda>b. CHR ''A'')\<rparr>
       5 \<lparr>draws = (\<lambda>i. 0), pos = 0\<rparr> = Inr (res, g')
     \<and> captcha_text res = ''00000''
     \<and> length (captcha_text res) = 5
     \<and> list_all digit (captcha_text res)
     \<and> (\<exists>wav :: byte list.
          captcha_audio res = ''data:audio/wav;base64,'' @ map (\<lambda>b. CHR ''A'') wav)"
proof -
  let ?W = "\<lparr>set_params = (\<lambda>c w r. None), write_frames = (\<lambda>c. Inr (frames c))\<rparr>"
  let ?c = "\<lparr>nchannels = 1, sampwidth = 2, framerate = 22050, frames = [0, 64]\<rparr>"
  let ?E = "\<lparr>speech = (\<lambda>s g. Inr ([], g)), reader = (\<lambda>bs. Inr ?c),
        writer = ?W, sine = (\<lambda>x. 0), b64encode = map (\<lambda>b. CHR ''A'')\<rparr>"
  let ?g = "\<lparr>draws = (\<lambda>i. 0), pos = 0 :: nat\<rparr>"
  have "case generate_text 5 ?g of Inl e \<Rightarrow> False | Inr (tx, g') \<Rightarrow> tx = ''00000''"
    by code_simp
  then obtain g1 where t: "generate_text 5 ?g = Inr (''00000'', g1)"
    by (auto split: sum.splits prod.splits)
  have e: "extract_samples 2 [0, 64] = Inr [16384]"
    by (simp add: extract_samples_def s16_le_def)
  have d: "wav_to_samples (\<lambda>bs. Inr ?c) [] = Inr ([norm16 16384], 22050)"
    using decode_frames_extracted[of ?c "[16384]"] e
    by (simp add: wav_to_samples_def del: One_nat_def)
  obtain fs g2 where n: "add_noise (\<lambda>x. 0) [norm16 16384] 22050 g1 = Inr (fs, g2)"
    using add_noise_total[of 22050 "[norm16 16384]" "\<lambda>x. 0" g1] by auto
  have w: "samples_to_wav ?W fs 22050 = Inr (concat (map (\<lambda>s. le16 (quantized s)) fs))"
    by (simp add: samples_to_wav_def pack_samples_total)
  have a: "generate_audio ?E ''00000'' g1
      = Inr (concat (map (\<lambda>s. le16 (quantized s)) fs), g2)"
    by (simp add: generate_audio_def d n w del: One_nat_def)
  have g: "generate ?E 5 ?g =
      Inr (\<lparr>captcha_text = ''00000'',
            captcha_audio = ''data:audio/wav;base64,''
              @ map (\<lambda>b. CHR ''A'') (concat (map (\<lambda>s. le16 (quantized s)) fs))\<rparr>, g2)"
    by (simp add: generate_def t a del: One_nat_def)
  let ?wav = "concat (map (\<lambda>s. le16 (quantized s)) fs)"
  let ?R = "\<lparr>captcha_text = ''00000'',
            captcha_audio = ''data:audio/wav;base64,'' @ map (\<lambda>b. CHR ''A'') ?wav\<rparr>"
  have p: "length (captcha_text ?R) = 5 \<and> list_all digit (captcha_text ?R)"
    using generate_result[OF g] by blast
  have c: "captcha_text ?R = ''00000''" by simp
  have w: "\<exists>wav :: byte list.
      captcha_audio ?R = ''data:audio/wav;base64,'' @ map (\<lambda>b. CHR ''A'') wav"
    by (rule exI[of _ ?wav]) simp
  have "generate ?E 5 ?g = Inr (?R, g2)
      \<and> captcha_text ?R = ''00000''
      \<and> length (captcha_text ?R) = 5
      \<and> list_all digit (captcha_text ?R)
      \<and> (\<exists>wav :: byte list.
            captcha_audio ?R = ''data:audio/wav;base64,'' @ map (\<lambda>b. CHR ''A'') wav)"
    using g c p w by (simp only: simp_thms)
  then show ?thesis by (intro exI)
qed

end
